theory Spec2Isabelle
  imports Main "HOL-Library.Word"
begin

section \<open>Machine integers of the C source\<close>

text \<open>
  \<open>gint\<close> is a 32-bit two's complement integer and \<open>guint\<close> a 32-bit unsigned one; values
  of these types are modelled as \<open>int\<close> and every conversion of the source into them is
  written out with \<open>to_gint\<close> and \<open>to_guint\<close>. \<open>GstClockTime\<close> (\<open>guint64\<close>) values are
  64-bit words, so that subtraction wraps and comparison is unsigned as in C;
  \<open>GST_CLOCK_TIME_NONE\<close> is the all-ones word \<open>- 1\<close>. The length of the buffer queue
  (a \<open>GArray\<close>) is taken as the list length; queues of \<open>2 ^ 31\<close> or more buffers are
  outside the model.
\<close>

definition to_gint :: "int \<Rightarrow> int" where
  "to_gint x = (x + 2 ^ 31) mod 2 ^ 32 - 2 ^ 31"

definition to_guint :: "int \<Rightarrow> int" where
  "to_guint x = x mod 2 ^ 32"

type_synonym GstClockTime = "64 word"

definition GST_CLOCK_TIME_NONE :: GstClockTime where
  "GST_CLOCK_TIME_NONE = - 1"

section \<open>Data model\<close>

datatype GstClientStatus =
  GST_CLIENT_STATUS_OK
| GST_CLIENT_STATUS_CLOSED
| GST_CLIENT_STATUS_REMOVED
| GST_CLIENT_STATUS_SLOW
| GST_CLIENT_STATUS_ERROR
| GST_CLIENT_STATUS_DUPLICATE
| GST_CLIENT_STATUS_FLUSHING

datatype GstSyncMethod =
  GST_SYNC_METHOD_LATEST
| GST_SYNC_METHOD_NEXT_KEYFRAME
| GST_SYNC_METHOD_LATEST_KEYFRAME
| GST_SYNC_METHOD_BURST
| GST_SYNC_METHOD_BURST_KEYFRAME
| GST_SYNC_METHOD_BURST_WITH_KEYFRAME

datatype GstRecoverPolicy =
  GST_RECOVER_POLICY_NONE
| GST_RECOVER_POLICY_RESYNC_LATEST
| GST_RECOVER_POLICY_RESYNC_SOFT_LIMIT
| GST_RECOVER_POLICY_RESYNC_KEYFRAME

datatype GstTCPUnitType =
  GST_TCP_UNIT_TYPE_UNDEFINED
| GST_TCP_UNIT_TYPE_BUFFERS
| GST_TCP_UNIT_TYPE_TIME
| GST_TCP_UNIT_TYPE_BYTES

text \<open>
  A buffer is opaque to the sink: an identity, its size in bytes, its timestamp and the
  two flags the sink looks at.
\<close>

record GstBuffer =
  buf_id :: nat
  buf_size :: nat
  buf_timestamp :: GstClockTime
  buf_header :: bool
  buf_delta :: bool

text \<open>What goes wrong in the C program without a result: a failed \<open>g_assert\<close> and a read
  of the queue array outside its bounds.\<close>

datatype failure = AssertionFailed | OutOfBounds

text \<open>Modelled from the spec: \<open>is_sync_frame\<close> is defined in the base class file, which is
  not part of the sources at hand; the spec's glossary says a sync frame (keyframe) is a
  buffer not marked delta.\<close>

definition is_sync_frame :: "GstBuffer \<Rightarrow> bool" where
  "is_sync_frame buf = (\<not> buf_delta buf)"

section \<open>\<open>get_buffers_max\<close>\<close>

text \<open>The two scanning loops of \<open>get_buffers_max\<close>; \<open>None\<close> is the loop running off the
  end of the queue, after which the function returns \<open>len + 1\<close>.\<close>

fun time_scan :: "int \<Rightarrow> int \<Rightarrow> GstClockTime \<Rightarrow> GstBuffer list \<Rightarrow> int option" where
  "time_scan mx i first [] = None"
| "time_scan mx i first (buf # rest) =
     (if buf_timestamp buf \<noteq> GST_CLOCK_TIME_NONE then
        (let first' = (if first = - 1 then buf_timestamp buf else first);
             diff = sint (first' - buf_timestamp buf)
         in if diff > mx then Some (i + 1) else time_scan mx (i + 1) first' rest)
      else time_scan mx (i + 1) first rest)"

fun bytes_scan :: "int \<Rightarrow> int \<Rightarrow> int \<Rightarrow> GstBuffer list \<Rightarrow> int option" where
  "bytes_scan mx i acc [] = None"
| "bytes_scan mx i acc (buf # rest) =
     (let acc' = to_gint (acc + int (buf_size buf))
      in if acc' > mx then Some (i + 1) else bytes_scan mx (i + 1) acc' rest)"

definition get_buffers_max :: "GstTCPUnitType \<Rightarrow> GstBuffer list \<Rightarrow> int \<Rightarrow> int" where
  "get_buffers_max unit_type bufqueue mx =
     (case unit_type of
        GST_TCP_UNIT_TYPE_BUFFERS \<Rightarrow> to_gint mx
      | GST_TCP_UNIT_TYPE_TIME \<Rightarrow>
          (case time_scan mx 0 GST_CLOCK_TIME_NONE bufqueue of
             Some r \<Rightarrow> r
           | None \<Rightarrow> int (length bufqueue) + 1)
      | GST_TCP_UNIT_TYPE_BYTES \<Rightarrow>
          (case bytes_scan mx 0 0 bufqueue of
             Some r \<Rightarrow> r
           | None \<Rightarrow> int (length bufqueue) + 1)
      | GST_TCP_UNIT_TYPE_UNDEFINED \<Rightarrow> to_gint mx)"

section \<open>\<open>find_limits\<close>\<close>

text \<open>
  The \<open>do ... while (i < len)\<close> loop, entered with a non-empty queue, as recursion over the
  buffers not yet visited. The result is \<open>(*min_idx, *max_idx, result)\<close> as the loop leaves
  them: \<open>*max_idx\<close> is still \<open>-1\<close> and \<open>result\<close> still \<open>FALSE\<close> when the loop ends by its
  condition rather than by \<open>break\<close>. The parameter \<open>buffers_max\<close> of the C function is used
  nowhere in its body.
\<close>

fun find_limits_loop ::
  "GstBuffer list \<Rightarrow> int \<Rightarrow> int \<Rightarrow> GstClockTime \<Rightarrow> int \<Rightarrow> GstClockTime \<Rightarrow> int \<Rightarrow> GstClockTime
     \<Rightarrow> int \<Rightarrow> bool \<Rightarrow> int \<times> int \<times> bool" where
  "find_limits_loop [] i bytes first bytes_min time_min bytes_max time_max min_idx max_hit =
     (min_idx, - 1, False)"
| "find_limits_loop (buf # rest) i bytes first bytes_min time_min bytes_max time_max min_idx max_hit =
     (let min_idx' = (if bytes_min = - 1 \<and> time_min = - 1 \<and> min_idx = - 1
                      then max (i - 1) 0 else min_idx)
      in if max_hit then (min_idx', i - 1, min_idx' \<noteq> - 1)
         else
           (let bytes' = to_gint (bytes + int (buf_size buf));
                time = buf_timestamp buf;
                first' = (if time \<noteq> - 1 \<and> first = - 1 then time else first);
                time_min' = (if time \<noteq> - 1 \<and> time_min \<noteq> - 1 \<and> first' - time \<ge> time_min
                             then - 1 else time_min);
                hit_t = (time \<noteq> - 1 \<and> time_max \<noteq> - 1 \<and> first' - time \<ge> time_max);
                bytes_min' = (if bytes_min \<noteq> - 1 \<and> bytes' \<ge> bytes_min then - 1 else bytes_min);
                hit_b = (bytes_max \<noteq> - 1 \<and> bytes' \<ge> bytes_max)
            in find_limits_loop rest (i + 1) bytes' first' bytes_min' time_min' bytes_max time_max
                 min_idx' (hit_t \<or> hit_b)))"

definition find_limits ::
  "GstBuffer list \<Rightarrow> int \<Rightarrow> int \<Rightarrow> GstClockTime \<Rightarrow> int \<Rightarrow> int \<Rightarrow> GstClockTime
     \<Rightarrow> failure + (int \<times> int \<times> bool)" where
  "find_limits bufqueue bytes_min buffers_min time_min bytes_max buffers_max time_max =
     (let len = int (length bufqueue) in
      if \<not> len > 0 then Inl AssertionFailed
      else if buffers_min \<noteq> - 1 \<and> len < buffers_min then Inr (len - 1, len - 1, False)
      else
        (case find_limits_loop bufqueue 0 0 (- 1) bytes_min time_min bytes_max time_max (- 1) False of
           (min_idx, max_idx, result) \<Rightarrow>
             (let max_idx' = (if max_idx = - 1 then len - 1 else max_idx);
                  min_idx' = (if min_idx = - 1 then max_idx' else min_idx)
              in Inr (min_idx', max_idx', result))))"

section \<open>\<open>gst_multi_fd_sink_recover_client\<close>\<close>

text \<open>The backwards search for a keyframe. The read \<open>g_array_index (bufqueue, newbufpos)\<close>
  is guarded by the array bounds here; the C code reads unchecked.\<close>

function keyframe_scan :: "GstBuffer list \<Rightarrow> int \<Rightarrow> failure + int" where
  "keyframe_scan bufqueue newbufpos =
     (if newbufpos \<ge> 0 then
        (if newbufpos < int (length bufqueue) then
           (if is_sync_frame (bufqueue ! nat newbufpos) then Inr newbufpos
            else keyframe_scan bufqueue (newbufpos - 1))
         else Inl OutOfBounds)
      else Inr newbufpos)"
  by pat_completeness auto
termination
  by (relation "measure (\<lambda>(q, p). nat (p + 1))") auto

declare keyframe_scan.simps [simp del]

text \<open>\<open>MIN (bufqueue->len - 1, get_buffers_max (...) - 1)\<close>: the first operand is a
  \<open>guint\<close>, so the macro compares and selects in unsigned arithmetic and the assignment to
  the \<open>gint newbufpos\<close> converts back.\<close>

definition MIN_len_softmax :: "int \<Rightarrow> int \<Rightarrow> int" where
  "MIN_len_softmax len softmax =
     (let a = to_guint (len - 1); b = to_guint (softmax - 1)
      in to_gint (if a < b then a else b))"

definition recover_client ::
  "GstRecoverPolicy \<Rightarrow> GstTCPUnitType \<Rightarrow> int \<Rightarrow> GstBuffer list \<Rightarrow> int \<Rightarrow> failure + int" where
  "recover_client recover_policy unit_type units_soft_max bufqueue bufpos =
     (case recover_policy of
        GST_RECOVER_POLICY_NONE \<Rightarrow> Inr bufpos
      | GST_RECOVER_POLICY_RESYNC_LATEST \<Rightarrow> Inr (- 1)
      | GST_RECOVER_POLICY_RESYNC_SOFT_LIMIT \<Rightarrow>
          Inr (get_buffers_max unit_type bufqueue units_soft_max)
      | GST_RECOVER_POLICY_RESYNC_KEYFRAME \<Rightarrow>
          keyframe_scan bufqueue
            (MIN_len_softmax (int (length bufqueue))
               (get_buffers_max unit_type bufqueue units_soft_max)))"

section \<open>Clients and the sink\<close>

text \<open>
  The caps of the sink pad: everything but the \<open>streamheader\<close> field is summarised by a
  number, the field itself is the array of header buffers when present. Equality of
  records is \<open>gst_caps_is_equal\<close>.
\<close>

record GstCaps =
  caps_format :: nat
  caps_streamheader :: "GstBuffer list option"

text \<open>\<open>GstTCPClient\<close> together with the \<open>GstMultiHandleClient\<close> it starts with.\<close>

record GstTCPClient =
  fd :: int
  is_socket :: bool
  burst_min_unit :: GstTCPUnitType
  burst_min_value :: "64 word"
  burst_max_unit :: GstTCPUnitType
  burst_max_value :: "64 word"
  status :: GstClientStatus
  sync_method :: GstSyncMethod
  bufpos :: int
  bufoffset :: int
  sending :: "GstBuffer list"
  flushcount :: int
  new_connection :: bool
  discont :: bool
  currently_removing :: bool
  caps :: "GstCaps option"
  bytes_sent :: "64 word"
  dropped_buffers :: "64 word"
  connect_time :: GstClockTime
  disconnect_time :: GstClockTime
  last_activity_time :: GstClockTime
  first_buffer_ts :: GstClockTime
  last_buffer_ts :: GstClockTime

text \<open>The signals the sink emits, in the order of emission.\<close>

datatype signal =
  SIGNAL_CLIENT_ADDED int
| SIGNAL_CLIENT_REMOVED int GstClientStatus
| SIGNAL_CLIENT_FD_REMOVED int

text \<open>
  The sink: the fields of \<open>GstMultiHandleSink\<close> and \<open>GstMultiFdSink\<close> that the modelled
  functions read or write. \<open>fd_hash\<close> maps a descriptor to its link in \<open>clients\<close>; the
  source inserts into and deletes from both together, so the hash lookup is the search of
  \<open>clients\<close> by descriptor (\<open>fd_hash_lookup\<close> below). \<open>fdset\<close> is the poll set: each
  descriptor with its read and write interest. \<open>signals\<close> records what was emitted.
  \<open>sink_open\<close> is the object flag \<open>GST_MULTI_HANDLE_SINK_OPEN\<close> and \<open>pad_caps\<close> the
  current caps of the sink pad.
\<close>

record GstMultiFdSink =
  bufqueue :: "GstBuffer list"
  clients :: "GstTCPClient list"
  clients_cookie :: "32 word"
  streamheader :: "GstBuffer list"
  previous_buffer_in_caps :: bool
  sink_open :: bool
  pad_caps :: GstCaps
  unit_type :: GstTCPUnitType
  units_max :: int
  units_soft_max :: int
  recover_policy :: GstRecoverPolicy
  timeout :: GstClockTime
  def_sync_method :: GstSyncMethod
  def_burst_unit :: GstTCPUnitType
  def_burst_value :: "64 word"
  bytes_min :: int
  buffers_min :: int
  time_min :: GstClockTime
  handle_read :: bool
  resend_streamheader :: bool
  buffers_queued :: int
  bytes_to_serve :: "64 word"
  bytes_served :: "64 word"
  fdset :: "(int \<times> bool \<times> bool) list"
  signals :: "signal list"

text \<open>Modelled from the spec: \<open>GstPoll\<close> is a library outside the sources at hand; the
  spec describes it as the set of descriptors with read and write interest. An entry is
  \<open>(fd, read interest, write interest)\<close>.\<close>

definition gst_poll_add_fd :: "(int \<times> bool \<times> bool) list \<Rightarrow> int \<Rightarrow> (int \<times> bool \<times> bool) list" where
  "gst_poll_add_fd ps f = (if f \<in> fst ` set ps then ps else ps @ [(f, False, False)])"

definition gst_poll_remove_fd :: "(int \<times> bool \<times> bool) list \<Rightarrow> int \<Rightarrow> (int \<times> bool \<times> bool) list" where
  "gst_poll_remove_fd ps f = filter (\<lambda>e. fst e \<noteq> f) ps"

definition gst_poll_fd_ctl_write ::
  "(int \<times> bool \<times> bool) list \<Rightarrow> int \<Rightarrow> bool \<Rightarrow> (int \<times> bool \<times> bool) list" where
  "gst_poll_fd_ctl_write ps f active =
     map (\<lambda>(g, r, w). if g = f then (g, r, active) else (g, r, w)) ps"

definition gst_poll_fd_ctl_read ::
  "(int \<times> bool \<times> bool) list \<Rightarrow> int \<Rightarrow> bool \<Rightarrow> (int \<times> bool \<times> bool) list" where
  "gst_poll_fd_ctl_read ps f active =
     map (\<lambda>(g, r, w). if g = f then (g, active, w) else (g, r, w)) ps"

text \<open>Modelled from the spec: \<open>gst_multi_handle_sink_client_init\<close> is defined in the base
  class file, which is not part of the sources at hand. The spec's data model gives the
  state of a fresh client: status OK, \<open>bufpos\<close> and \<open>flushcount\<close> at \<open>-1\<close>, nothing being
  sent, a new connection, the statistics empty and the clock stamps taken at creation.\<close>

definition gst_multi_handle_sink_client_init :: "GstSyncMethod \<Rightarrow> GstClockTime \<Rightarrow> GstTCPClient" where
  "gst_multi_handle_sink_client_init sm now =
     \<lparr> fd = 0, is_socket = False,
       burst_min_unit = GST_TCP_UNIT_TYPE_UNDEFINED, burst_min_value = 0,
       burst_max_unit = GST_TCP_UNIT_TYPE_UNDEFINED, burst_max_value = 0,
       status = GST_CLIENT_STATUS_OK, sync_method = sm,
       bufpos = - 1, bufoffset = 0, sending = [], flushcount = - 1,
       new_connection = True, discont = False, currently_removing = False,
       caps = None, bytes_sent = 0, dropped_buffers = 0,
       connect_time = now, disconnect_time = 0, last_activity_time = now,
       first_buffer_ts = GST_CLOCK_TIME_NONE, last_buffer_ts = GST_CLOCK_TIME_NONE \<rparr>"

text \<open>\<open>g_hash_table_lookup (sink->fd_hash, &fd)\<close>: the position of the client's link in
  \<open>clients\<close>, \<open>None\<close> for \<open>NULL\<close>.\<close>

fun fd_hash_index :: "GstTCPClient list \<Rightarrow> int \<Rightarrow> nat \<Rightarrow> nat option" where
  "fd_hash_index [] f k = None"
| "fd_hash_index (c # cs) f k = (if fd c = f then Some k else fd_hash_index cs f (Suc k))"

definition fd_hash_lookup :: "GstMultiFdSink \<Rightarrow> int \<Rightarrow> nat option" where
  "fd_hash_lookup sink f = fd_hash_index (clients sink) f 0"

section \<open>Burst limits and the start position of a new client\<close>

text \<open>\<open>assign_value\<close> writes the value into the limit of the given unit and leaves the
  other two as they are; the \<open>(gint)\<close> casts truncate the 64-bit value.\<close>

definition assign_value ::
  "GstTCPUnitType \<Rightarrow> 64 word \<Rightarrow> int \<times> int \<times> GstClockTime \<Rightarrow> int \<times> int \<times> GstClockTime" where
  "assign_value unit val lims =
     (case lims of (bytes, buffers, time) \<Rightarrow>
        (case unit of
           GST_TCP_UNIT_TYPE_BUFFERS \<Rightarrow> (bytes, to_gint (uint val), time)
         | GST_TCP_UNIT_TYPE_TIME \<Rightarrow> (bytes, buffers, val)
         | GST_TCP_UNIT_TYPE_BYTES \<Rightarrow> (to_gint (uint val), buffers, time)
         | GST_TCP_UNIT_TYPE_UNDEFINED \<Rightarrow> (bytes, buffers, time)))"

definition count_burst_unit ::
  "GstBuffer list \<Rightarrow> GstTCPUnitType \<Rightarrow> 64 word \<Rightarrow> GstTCPUnitType \<Rightarrow> 64 word
     \<Rightarrow> failure + (int \<times> int \<times> bool)" where
  "count_burst_unit q min_unit min_value max_unit max_value =
     (case assign_value min_unit min_value (- 1, - 1, GST_CLOCK_TIME_NONE) of
        (bytes_mn, buffers_mn, time_mn) \<Rightarrow>
          (case assign_value max_unit max_value (- 1, - 1, GST_CLOCK_TIME_NONE) of
             (bytes_mx, buffers_mx, time_mx) \<Rightarrow>
               find_limits q bytes_mn buffers_mn time_mn bytes_mx buffers_mx time_mx))"

text \<open>Modelled from the spec: \<open>find_next_syncframe\<close> and \<open>find_prev_syncframe\<close> are defined
  in the base class file, which is not part of the sources at hand. By the spec the first
  is the nearest sync frame at an index \<open>\<ge> idx\<close>, the second the nearest one at an index
  \<open>\<le> idx\<close>, and \<open>-1\<close> stands for none.\<close>

fun next_sync_from :: "GstBuffer list \<Rightarrow> int \<Rightarrow> int" where
  "next_sync_from [] i = - 1"
| "next_sync_from (buf # rest) i = (if is_sync_frame buf then i else next_sync_from rest (i + 1))"

definition find_next_syncframe :: "GstBuffer list \<Rightarrow> int \<Rightarrow> int" where
  "find_next_syncframe q idx = (if idx < 0 then - 1 else next_sync_from (drop (nat idx) q) idx)"

definition find_prev_syncframe :: "GstBuffer list \<Rightarrow> int \<Rightarrow> int" where
  "find_prev_syncframe q idx =
     (if idx < 0 \<or> idx \<ge> int (length q) then - 1
      else (case keyframe_scan q idx of Inr r \<Rightarrow> r | Inl e \<Rightarrow> - 1))"

text \<open>\<open>gst_multi_fd_sink_new_client\<close> returns the start position and may change the client
  (its \<open>bufpos\<close> and \<open>sync_method\<close>).\<close>

definition new_client :: "GstBuffer list \<Rightarrow> GstTCPClient \<Rightarrow> failure + (int \<times> GstTCPClient)" where
  "new_client q client =
     (case sync_method client of
        GST_SYNC_METHOD_LATEST \<Rightarrow> Inr (bufpos client, client)
      | GST_SYNC_METHOD_NEXT_KEYFRAME \<Rightarrow>
          (let result = find_prev_syncframe q (bufpos client)
           in if result \<noteq> - 1 then Inr (result, client)
              else Inr (result, client\<lparr>bufpos := - 1\<rparr>))
      | GST_SYNC_METHOD_LATEST_KEYFRAME \<Rightarrow>
          (let result = find_next_syncframe q 0
           in if result \<noteq> - 1 then Inr (result, client)
              else Inr (result, client\<lparr>bufpos := - 1, sync_method := GST_SYNC_METHOD_NEXT_KEYFRAME\<rparr>))
      | GST_SYNC_METHOD_BURST \<Rightarrow>
          (case count_burst_unit q (burst_min_unit client) (burst_min_value client)
                  (burst_max_unit client) (burst_max_value client) of
             Inl e \<Rightarrow> Inl e
           | Inr (result, mx, ok) \<Rightarrow>
               if mx \<noteq> - 1 \<and> mx \<le> result then Inr (max (mx - 1) 0, client)
               else Inr (result, client))
      | GST_SYNC_METHOD_BURST_KEYFRAME \<Rightarrow>
          (case count_burst_unit q (burst_min_unit client) (burst_min_value client)
                  (burst_max_unit client) (burst_max_value client) of
             Inl e \<Rightarrow> Inl e
           | Inr (min_idx, max_idx, ok) \<Rightarrow>
               (let next_syncframe = find_next_syncframe q min_idx
                in if next_syncframe \<noteq> - 1 \<and> next_syncframe < max_idx
                   then Inr (next_syncframe, client)
                   else
                     (let prev_syncframe = find_prev_syncframe q min_idx
                      in if prev_syncframe \<noteq> - 1 then Inr (prev_syncframe, client)
                         else Inr (- 1, client\<lparr>bufpos := - 1,
                                     sync_method := GST_SYNC_METHOD_NEXT_KEYFRAME\<rparr>))))
      | GST_SYNC_METHOD_BURST_WITH_KEYFRAME \<Rightarrow>
          (case count_burst_unit q (burst_min_unit client) (burst_min_value client)
                  (burst_max_unit client) (burst_max_value client) of
             Inl e \<Rightarrow> Inl e
           | Inr (min_idx, max_idx, ok) \<Rightarrow>
               (let next_syncframe = find_next_syncframe q min_idx
                in if next_syncframe \<noteq> - 1 \<and> next_syncframe < max_idx
                   then Inr (next_syncframe, client)
                   else if max_idx \<noteq> - 1 \<and> max_idx \<le> min_idx
                   then Inr (max (max_idx - 1) 0, client)
                   else Inr (min_idx, client))))"

section \<open>Stream headers before a buffer: \<open>gst_multi_fd_sink_client_queue_buffer\<close>\<close>

definition client_queue_buffer :: "GstCaps \<Rightarrow> bool \<Rightarrow> GstTCPClient \<Rightarrow> GstBuffer \<Rightarrow> GstTCPClient" where
  "client_queue_buffer pcaps resend client buffer =
     (let send_streamheader =
            (case caps client of
               None \<Rightarrow> True
             | Some old \<Rightarrow>
                 if pcaps \<noteq> old then
                   (if caps_streamheader pcaps = None then False
                    else if caps_streamheader old = None then True
                    else if \<not> resend then False
                    else caps_streamheader old \<noteq> caps_streamheader pcaps)
                 else False);
          headers = (if send_streamheader
                     then (case caps_streamheader pcaps of None \<Rightarrow> [] | Some bufs \<Rightarrow> bufs)
                     else [])
      in client\<lparr>caps := Some pcaps, sending := sending client @ headers @ [buffer]\<rparr>)"

section \<open>Removing a client: \<open>gst_multi_fd_sink_remove_client_link\<close>\<close>

text \<open>
  The link is given by its position \<open>k\<close> in \<open>clients\<close>. A client already being removed is
  left alone. Otherwise the descriptor leaves the poll set, \<open>client-removed\<close> is emitted
  with the client's status, the client leaves the hash and the list, the cookie is bumped
  and \<open>client-fd-removed\<close> is emitted. What the function writes into the client before
  freeing it (\<open>currently_removing\<close>, \<open>disconnect_time\<close>, the emptied \<open>sending\<close> list) is
  gone with the client. The handlers of the two signals run while the lock is released;
  they are outside the model.
\<close>

definition remove_client_link :: "GstMultiFdSink \<Rightarrow> nat \<Rightarrow> GstMultiFdSink" where
  "remove_client_link sink k =
     (let client = clients sink ! k in
      if currently_removing client then sink
      else sink\<lparr> clients := take k (clients sink) @ drop (Suc k) (clients sink),
                 clients_cookie := clients_cookie sink + 1,
                 fdset := gst_poll_remove_fd (fdset sink) (fd client),
                 signals := signals sink @
                   [SIGNAL_CLIENT_REMOVED (fd client) (status client),
                    SIGNAL_CLIENT_FD_REMOVED (fd client)] \<rparr>)"

definition set_client :: "GstMultiFdSink \<Rightarrow> nat \<Rightarrow> GstTCPClient \<Rightarrow> GstMultiFdSink" where
  "set_client sink k client = sink\<lparr>clients := (clients sink)[k := client]\<rparr>"

section \<open>The client table: \<open>add_full\<close>, \<open>add\<close>, \<open>remove\<close>, \<open>remove_flush\<close>\<close>

text \<open>
  \<open>add_full\<close> depends on the clock and on two facts about the descriptor that it asks the
  operating system for: whether it is open write-only (\<open>fcntl (F_GETFL)\<close>) and whether it
  is a socket (\<open>fstat\<close>). Setting \<open>O_NONBLOCK\<close> and the DSCP socket option change the
  descriptor, not the sink. Nothing in the function closes a descriptor.
\<close>

definition add_full ::
  "GstMultiFdSink \<Rightarrow> int \<Rightarrow> GstSyncMethod \<Rightarrow> GstTCPUnitType \<Rightarrow> 64 word \<Rightarrow> GstTCPUnitType \<Rightarrow> 64 word
     \<Rightarrow> GstClockTime \<Rightarrow> bool \<Rightarrow> bool \<Rightarrow> GstMultiFdSink" where
  "add_full sink f sm min_unit min_value max_unit max_value now wronly is_sock =
     (if min_unit = max_unit \<and> max_value \<noteq> - 1 \<and> min_value \<noteq> - 1 \<and> max_value < min_value
      then sink
      else
        (let client = (gst_multi_handle_sink_client_init sm now)
                        \<lparr> fd := f, burst_min_unit := min_unit, burst_min_value := min_value,
                          burst_max_unit := max_unit, burst_max_value := max_value \<rparr>
         in case fd_hash_lookup sink f of
              Some clink \<Rightarrow>
                (let dup = client\<lparr>status := GST_CLIENT_STATUS_DUPLICATE\<rparr>
                 in sink\<lparr>signals := signals sink @ [SIGNAL_CLIENT_REMOVED f (status dup)]\<rparr>)
            | None \<Rightarrow>
                (let ps = gst_poll_add_fd (fdset sink) f
                 in sink\<lparr> clients := client\<lparr>is_socket := is_sock\<rparr> # clients sink,
                           clients_cookie := clients_cookie sink + 1,
                           fdset := (if handle_read sink \<and> \<not> wronly
                                     then gst_poll_fd_ctl_read ps f True else ps),
                           signals := signals sink @ [SIGNAL_CLIENT_ADDED f] \<rparr>)))"

definition add :: "GstMultiFdSink \<Rightarrow> int \<Rightarrow> GstClockTime \<Rightarrow> bool \<Rightarrow> bool \<Rightarrow> GstMultiFdSink" where
  "add sink f now wronly is_sock =
     add_full sink f (def_sync_method sink) (def_burst_unit sink) (def_burst_value sink)
       (def_burst_unit sink) (- 1) now wronly is_sock"

text \<open>
  The system calls that \<open>add_full\<close> makes on the descriptor, in the order of the source:
  \<open>fcntl (F_SETFL)\<close>, \<open>fcntl (F_GETFL)\<close> when the sink handles reads, \<open>fstat\<close>, and for a
  socket the calls of \<open>setup_dscp_client\<close>. The latter does nothing when \<open>qos_dscp\<close> is
  negative; otherwise it asks for the socket name and, when that succeeds with an
  address family it supports (IPv4, or IPv6 with \<open>IPV6_TCLASS\<close> defined; an IPv4-mapped
  IPv6 address counts as IPv4), sets the socket option. \<open>sockname\<close> is what \<open>getsockname\<close>
  reports: \<open>None\<close> for a failure, otherwise the family and whether the address is
  IPv4-mapped. There is no \<open>close\<close> among the calls of the source.
\<close>

datatype fd_call = FCNTL_SETFL int | FCNTL_GETFL int | FSTAT int | GETSOCKNAME int | SETSOCKOPT int

datatype sa_family = AF_INET | AF_INET6 | AF_UNSUPPORTED

definition setup_dscp_client_calls :: "int \<Rightarrow> (sa_family \<times> bool) option \<Rightarrow> int \<Rightarrow> fd_call list" where
  "setup_dscp_client_calls qos_dscp sockname f =
     (if qos_dscp < 0 then []
      else (case sockname of
              None \<Rightarrow> [GETSOCKNAME f]
            | Some (family, v4mapped) \<Rightarrow>
                (let af = (if family = AF_INET6 \<and> v4mapped then AF_INET else family)
                 in case af of
                      AF_INET \<Rightarrow> [GETSOCKNAME f, SETSOCKOPT f]
                    | AF_INET6 \<Rightarrow> [GETSOCKNAME f, SETSOCKOPT f]
                    | AF_UNSUPPORTED \<Rightarrow> [GETSOCKNAME f])))"

definition add_full_fd_calls ::
  "GstMultiFdSink \<Rightarrow> int \<Rightarrow> GstTCPUnitType \<Rightarrow> 64 word \<Rightarrow> GstTCPUnitType \<Rightarrow> 64 word
     \<Rightarrow> bool \<Rightarrow> int \<Rightarrow> (sa_family \<times> bool) option \<Rightarrow> fd_call list" where
  "add_full_fd_calls sink f min_unit min_value max_unit max_value is_sock qos_dscp sockname =
     (if min_unit = max_unit \<and> max_value \<noteq> - 1 \<and> min_value \<noteq> - 1 \<and> max_value < min_value
      then []
      else
        (case fd_hash_lookup sink f of
           Some clink \<Rightarrow> []
         | None \<Rightarrow>
             [FCNTL_SETFL f] @ (if handle_read sink then [FCNTL_GETFL f] else []) @ [FSTAT f] @
             (if is_sock then setup_dscp_client_calls qos_dscp sockname f else [])))"

definition add_fd_calls ::
  "GstMultiFdSink \<Rightarrow> int \<Rightarrow> bool \<Rightarrow> int \<Rightarrow> (sa_family \<times> bool) option \<Rightarrow> fd_call list" where
  "add_fd_calls sink f is_sock qos_dscp sockname =
     add_full_fd_calls sink f (def_burst_unit sink) (def_burst_value sink)
       (def_burst_unit sink) (- 1) is_sock qos_dscp sockname"

definition remove :: "GstMultiFdSink \<Rightarrow> int \<Rightarrow> GstMultiFdSink" where
  "remove sink f =
     (case fd_hash_lookup sink f of
        Some clink \<Rightarrow>
          (let client = clients sink ! clink in
           if status client \<noteq> GST_CLIENT_STATUS_OK then sink
           else remove_client_link
                  (set_client sink clink (client\<lparr>status := GST_CLIENT_STATUS_REMOVED\<rparr>)) clink)
      | None \<Rightarrow> sink)"

definition remove_flush :: "GstMultiFdSink \<Rightarrow> int \<Rightarrow> GstMultiFdSink" where
  "remove_flush sink f =
     (case fd_hash_lookup sink f of
        Some clink \<Rightarrow>
          (let client = clients sink ! clink in
           if status client \<noteq> GST_CLIENT_STATUS_OK then sink
           else set_client sink clink
                  (client\<lparr> flushcount := bufpos client + 1,
                           status := GST_CLIENT_STATUS_FLUSHING \<rparr>))
      | None \<Rightarrow> sink)"

section \<open>Reading from a client: \<open>gst_multi_fd_sink_handle_client_read\<close>\<close>

text \<open>
  The operating system is a trace: the outcome of \<open>ioctl (FIONREAD)\<close> and the return
  values of the successive \<open>read\<close> calls (\<open>-1\<close> is a failed call). The loop stops only
  when the count of outstanding bytes is used up or a read is taken as failed, so a trace
  that ends before that gives \<open>None\<close>. Besides the return value and the client, the
  result lists the sizes asked of \<open>read\<close>.
\<close>

datatype ioctl_result = IOCTL_FAILED | IOCTL_AVAIL int

fun read_drain ::
  "int \<Rightarrow> int list \<Rightarrow> GstTCPClient \<Rightarrow> int list \<Rightarrow> (bool \<times> GstTCPClient \<times> int list) option" where
  "read_drain avail [] client asked = None"
| "read_drain avail (nread # rest) client asked =
     (let to_read = min avail 512; asked' = asked @ [to_read]
      in if nread < - 1 then Some (False, client\<lparr>status := GST_CLIENT_STATUS_ERROR\<rparr>, asked')
         else if nread = 0 then Some (False, client\<lparr>status := GST_CLIENT_STATUS_ERROR\<rparr>, asked')
         else (let avail' = to_gint (avail - nread)
               in if avail' > 0 then read_drain avail' rest client asked'
                  else Some (True, client, asked')))"

definition handle_client_read ::
  "ioctl_result \<Rightarrow> int list \<Rightarrow> GstTCPClient \<Rightarrow> (bool \<times> GstTCPClient \<times> int list) option" where
  "handle_client_read ioc reads client =
     (case ioc of
        IOCTL_FAILED \<Rightarrow> Some (False, client\<lparr>status := GST_CLIENT_STATUS_ERROR\<rparr>, [])
      | IOCTL_AVAIL avail \<Rightarrow>
          if avail = 0 then Some (False, client\<lparr>status := GST_CLIENT_STATUS_CLOSED\<rparr>, [])
          else if avail < 0 then Some (False, client\<lparr>status := GST_CLIENT_STATUS_ERROR\<rparr>, [])
          else read_drain avail reads client [])"

section \<open>Writing to a client: \<open>gst_multi_fd_sink_handle_client_write\<close>\<close>

text \<open>The part of the loop body that runs when the client is not working on a buffer. It
  either leaves the function (with its return value) or goes on to the sending part with
  a buffer taken from the global queue.\<close>

datatype pick_result =
  PICK_FAILED failure
| PICK_RETURN bool GstMultiFdSink GstTCPClient
| PICK_CONTINUE GstMultiFdSink GstTCPClient

definition choose_start :: "GstBuffer list \<Rightarrow> GstTCPClient \<Rightarrow> bool \<Rightarrow> failure + (bool \<times> GstTCPClient)" where
  "choose_start q client flushing =
     (if new_connection client \<and> \<not> flushing then
        (case new_client q client of
           Inl e \<Rightarrow> Inl e
         | Inr (position, client') \<Rightarrow>
             if position \<ge> 0
             then Inr (True, client'\<lparr>new_connection := False, bufpos := position\<rparr>)
             else Inr (False, client'))
      else Inr (True, client))"

definition pick_buffer :: "GstMultiFdSink \<Rightarrow> GstTCPClient \<Rightarrow> bool \<Rightarrow> pick_result" where
  "pick_buffer sink client flushing =
     (if bufpos client = - 1 then
        (let sink' = sink\<lparr>fdset := gst_poll_fd_ctl_write (fdset sink) (fd client) False\<rparr>
         in if flushcount client = 0
            then PICK_RETURN False sink' (client\<lparr>status := GST_CLIENT_STATUS_REMOVED\<rparr>)
            else PICK_RETURN True sink' client)
      else
        (case choose_start (bufqueue sink) client flushing of
           Inl e \<Rightarrow> PICK_FAILED e
         | Inr (False, client1) \<Rightarrow>
             PICK_RETURN True
               (sink\<lparr>fdset := gst_poll_fd_ctl_write (fdset sink) (fd client) False\<rparr>) client1
         | Inr (True, client1) \<Rightarrow>
             if flushcount client1 = 0
             then PICK_RETURN False sink (client1\<lparr>status := GST_CLIENT_STATUS_REMOVED\<rparr>)
             else if bufpos client1 < 0 \<or> bufpos client1 \<ge> int (length (bufqueue sink))
             then PICK_FAILED OutOfBounds
             else
               (let buf = bufqueue sink ! nat (bufpos client1);
                    ts = buf_timestamp buf;
                    client2 = client1
                      \<lparr> bufpos := bufpos client1 - 1,
                        first_buffer_ts := (if first_buffer_ts client1 = GST_CLOCK_TIME_NONE
                                            then ts else first_buffer_ts client1),
                        last_buffer_ts := (if ts \<noteq> - 1 then ts else last_buffer_ts client1),
                        flushcount := (if flushcount client1 \<noteq> - 1
                                       then flushcount client1 - 1 else flushcount client1) \<rparr>;
                    client3 = client_queue_buffer (pad_caps sink) (resend_streamheader sink)
                                client2 buf
                in PICK_CONTINUE sink (client3\<lparr>bufoffset := 0\<rparr>))))"

text \<open>The outcome of one \<open>send\<close> or \<open>write\<close> call: the returned count and, for a negative
  count, the error.\<close>

datatype write_errno = EAGAIN | ECONNRESET | EOTHER

text \<open>The \<open>do ... while (more)\<close> loop over the trace of write outcomes; every turn that
  does not leave the function makes one call. \<open>None\<close> is a trace that ends before the
  function returns.\<close>

fun handle_client_write_loop ::
  "GstMultiFdSink \<Rightarrow> GstTCPClient \<Rightarrow> GstClockTime \<Rightarrow> bool \<Rightarrow> (int \<times> write_errno) list
     \<Rightarrow> (failure + (bool \<times> GstMultiFdSink \<times> GstTCPClient)) option" where
  "handle_client_write_loop sink client now flushing ws =
     (case (if sending client = [] then pick_buffer sink client flushing
            else PICK_CONTINUE sink client) of
        PICK_FAILED e \<Rightarrow> Some (Inl e)
      | PICK_RETURN r sink' client' \<Rightarrow> Some (Inr (r, sink', client'))
      | PICK_CONTINUE sink1 client1 \<Rightarrow>
          (case sending client1 of
             [] \<Rightarrow> None
           | head # tail \<Rightarrow>
               (case ws of
                  [] \<Rightarrow> None
                | (wrote, err) # ws' \<Rightarrow>
                    (let maxsize = to_gint (int (buf_size head) - bufoffset client1)
                     in if wrote < 0 then
                          (case err of
                             EAGAIN \<Rightarrow> Some (Inr (True, sink1, client1))
                           | ECONNRESET \<Rightarrow>
                               Some (Inr (False, sink1,
                                          client1\<lparr>status := GST_CLIENT_STATUS_CLOSED\<rparr>))
                           | EOTHER \<Rightarrow>
                               Some (Inr (False, sink1,
                                          client1\<lparr>status := GST_CLIENT_STATUS_ERROR\<rparr>)))
                        else
                          (let client2 =
                                 (if wrote < maxsize
                                  then client1\<lparr>bufoffset := to_gint (bufoffset client1 + wrote)\<rparr>
                                  else client1\<lparr>sending := tail, bufoffset := 0\<rparr>);
                               client3 = client2
                                 \<lparr> bytes_sent := bytes_sent client2 + word_of_int wrote,
                                   last_activity_time := now \<rparr>;
                               sink2 = sink1\<lparr>bytes_served := bytes_served sink1 + word_of_int wrote\<rparr>
                           in if wrote < maxsize then Some (Inr (True, sink2, client3))
                              else handle_client_write_loop sink2 client3 now flushing ws')))))"

definition handle_client_write ::
  "GstMultiFdSink \<Rightarrow> GstTCPClient \<Rightarrow> GstClockTime \<Rightarrow> (int \<times> write_errno) list
     \<Rightarrow> (failure + (bool \<times> GstMultiFdSink \<times> GstTCPClient)) option" where
  "handle_client_write sink client now ws =
     handle_client_write_loop sink client now (status client = GST_CLIENT_STATUS_FLUSHING) ws"

section \<open>Queueing a buffer: \<open>gst_multi_fd_sink_queue_buffer\<close>\<close>

text \<open>
  One turn of the loop over the clients, for the client at position \<open>k\<close>: advance its
  position, recover it beyond the soft maximum (\<open>recover_position\<close>), remove it beyond
  the hard maximum or after the timeout, otherwise wake it up and account for its
  position. The result is the sink, the position of the next link, \<open>max_buffer_usage\<close>
  and \<open>need_signal\<close>. The next link is at the same position when the client has left the
  list and one further when it has not.
\<close>

definition recover_position :: "GstMultiFdSink \<Rightarrow> int \<Rightarrow> GstTCPClient \<Rightarrow> failure + GstTCPClient" where
  "recover_position sink soft_max_buffers client =
     (if soft_max_buffers > 0 \<and> bufpos client \<ge> soft_max_buffers then
        (case recover_client (recover_policy sink) (unit_type sink) (units_soft_max sink)
                (bufqueue sink) (bufpos client) of
           Inl e \<Rightarrow> Inl e
         | Inr newpos \<Rightarrow>
             if newpos \<noteq> bufpos client
             then Inr (client
                    \<lparr> dropped_buffers :=
                        dropped_buffers client + word_of_int (bufpos client - newpos),
                      bufpos := newpos, discont := True \<rparr>)
             else Inr client)
      else Inr client)"

definition queue_client_step ::
  "int \<Rightarrow> int \<Rightarrow> GstClockTime \<Rightarrow> GstMultiFdSink \<Rightarrow> nat \<Rightarrow> int \<Rightarrow> bool
     \<Rightarrow> failure + (GstMultiFdSink \<times> nat \<times> int \<times> bool)" where
  "queue_client_step max_buffers soft_max_buffers now sink k usage need_signal =
     (let client = clients sink ! k;
          client1 = client\<lparr>bufpos := bufpos client + 1\<rparr>
      in case recover_position sink soft_max_buffers client1 of
           Inl e \<Rightarrow> Inl e
         | Inr client2 \<Rightarrow>
             if (max_buffers > 0 \<and> bufpos client2 \<ge> max_buffers) \<or>
                (timeout sink > 0 \<and> now - last_activity_time client2 > timeout sink)
             then
               (let client3 = client2\<lparr>status := GST_CLIENT_STATUS_SLOW, bufpos := - 1\<rparr>
                in Inr (remove_client_link (set_client sink k client3) k,
                        (if currently_removing client3 then Suc k else k), usage, True))
             else
               (let wake = (bufpos client2 = 0 \<or> new_connection client2);
                    sink1 = set_client sink k client2;
                    sink2 = (if wake
                             then sink1\<lparr>fdset := gst_poll_fd_ctl_write (fdset sink1) (fd client2) True\<rparr>
                             else sink1)
                in Inr (sink2, Suc k,
                        (if bufpos client2 > usage then bufpos client2 else usage),
                        (need_signal \<or> wake))))"

lemma length_clients_set_client [simp]:
  "length (clients (set_client sink k client)) = length (clients sink)"
  by (simp add: set_client_def)

lemma clients_cookie_set_client [simp]:
  "clients_cookie (set_client sink k client) = clients_cookie sink"
  by (simp add: set_client_def)

lemma queue_client_step_progress:
  assumes "queue_client_step mb smb now sink k usage ns = Inr (sink', k', usage', ns')"
    and "k < length (clients sink)"
  shows "length (clients sink') < length (clients sink) \<or>
         (length (clients sink') = length (clients sink) \<and>
          clients_cookie sink' = clients_cookie sink \<and> k' = Suc k)"
  using assms
  by (auto simp: queue_client_step_def remove_client_link_def Let_def set_client_def
           split: if_splits sum.splits)

text \<open>
  The loop over the clients with its cookie check: \<open>cookie\<close> is the snapshot taken at
  \<open>restart\<close>, and a turn that finds it outdated jumps back to \<open>restart\<close>, which takes a
  new snapshot and starts again at the head of the list. \<open>max_buffer_usage\<close> and
  \<open>need_signal\<close> are set before the label and so survive the jump.
\<close>

function queue_clients_loop ::
  "int \<Rightarrow> int \<Rightarrow> GstClockTime \<Rightarrow> GstMultiFdSink \<Rightarrow> 32 word \<Rightarrow> nat \<Rightarrow> int \<Rightarrow> bool
     \<Rightarrow> failure + (GstMultiFdSink \<times> int \<times> bool)" where
  "queue_clients_loop mb smb now sink cookie k usage ns =
     (if k \<ge> length (clients sink) then Inr (sink, usage, ns)
      else if cookie \<noteq> clients_cookie sink
      then queue_clients_loop mb smb now sink (clients_cookie sink) 0 usage ns
      else (case queue_client_step mb smb now sink k usage ns of
              Inl e \<Rightarrow> Inl e
            | Inr (sink', k', usage', ns') \<Rightarrow>
                queue_clients_loop mb smb now sink' cookie k' usage' ns'))"
  by pat_completeness auto
termination
proof (relation "measures
    [\<lambda>(mb, smb, now, sink, cookie, k, usage, ns). length (clients sink),
     \<lambda>(mb, smb, now, sink, cookie, k, usage, ns). (if cookie \<noteq> clients_cookie sink then 1 else 0),
     \<lambda>(mb, smb, now, sink, cookie, k, usage, ns). length (clients sink) - k]",
    goal_cases)
  case 1
  show ?case by simp
next
  case (2 mb smb now sink cookie k usage ns)
  then show ?case by simp
next
  case (3 mb smb now sink cookie k usage ns x2 sink' y k' z usage' ns')
  then have "queue_client_step mb smb now sink k usage ns = Inr (sink', k', usage', ns')"
    and "k < length (clients sink)" and "cookie = clients_cookie sink"
    by simp_all
  from queue_client_step_progress [OF this(1,2)]
  have "length (clients sink') < length (clients sink) \<or>
         (length (clients sink') = length (clients sink) \<and>
          clients_cookie sink' = clients_cookie sink \<and> k' = Suc k)" .
  then show ?case
  proof
    assume "length (clients sink') < length (clients sink)"
    then show ?thesis by simp
  next
    assume "length (clients sink') = length (clients sink) \<and>
          clients_cookie sink' = clients_cookie sink \<and> k' = Suc k"
    with \<open>k < length (clients sink)\<close> \<open>cookie = clients_cookie sink\<close> show ?thesis by simp
  qed
qed

declare queue_clients_loop.simps [simp del]

text \<open>The search for a sync point below \<open>limit\<close> and the removal of the tail of the
  queue, both as the \<open>for\<close> loops they are.\<close>

fun sync_extend :: "GstBuffer list \<Rightarrow> int \<Rightarrow> int \<Rightarrow> int \<Rightarrow> int" where
  "sync_extend [] i limit usage = usage"
| "sync_extend (buf # rest) i limit usage =
     (if i < limit then
        (if is_sync_frame buf then max usage i else sync_extend rest (i + 1) limit usage)
      else usage)"

definition g_array_remove_index :: "'a list \<Rightarrow> int \<Rightarrow> 'a list" where
  "g_array_remove_index xs i = take (nat i) xs @ drop (Suc (nat i)) xs"

function trim_queue :: "GstBuffer list \<Rightarrow> int \<Rightarrow> int \<Rightarrow> GstBuffer list" where
  "trim_queue q i usage =
     (if i > usage then trim_queue (g_array_remove_index q i) (i - 1) usage else q)"
  by pat_completeness auto
termination
  by (relation "measure (\<lambda>(q, i, usage). nat (i - usage))") auto

declare trim_queue.simps [simp del]

text \<open>The end of \<open>gst_multi_fd_sink_queue_buffer\<close>, after the loop over the clients: the
  queue is kept long enough for the configured minimums and, under the two keyframe
  sync methods, for the newest sync point within the limit; what lies beyond is removed
  from the tail.\<close>

definition queue_buffer_trim :: "GstMultiFdSink \<Rightarrow> int \<Rightarrow> int \<Rightarrow> int \<Rightarrow> failure + GstMultiFdSink" where
  "queue_buffer_trim sink queuelen soft_max_buffers usage0 =
     (case find_limits (bufqueue sink) (bytes_min sink) (buffers_min sink)
             (time_min sink) (- 1) (- 1) (- 1) of
        Inl e \<Rightarrow> Inl e
      | Inr (usage, mx, ok) \<Rightarrow>
          (let usage1 = max usage0 (usage + 1);
               usage2 =
                 (if def_sync_method sink = GST_SYNC_METHOD_LATEST_KEYFRAME \<or>
                     def_sync_method sink = GST_SYNC_METHOD_BURST_KEYFRAME
                  then sync_extend (bufqueue sink) 0
                         (if soft_max_buffers > 0 then min queuelen soft_max_buffers
                          else queuelen) usage1
                  else usage1)
           in Inr (sink\<lparr> bufqueue := trim_queue (bufqueue sink) (queuelen - 1) usage2,
                          buffers_queued := usage2 \<rparr>)))"

definition queue_buffer :: "GstMultiFdSink \<Rightarrow> GstBuffer \<Rightarrow> GstClockTime \<Rightarrow> failure + GstMultiFdSink" where
  "queue_buffer sink buf now =
     (let sink1 = sink\<lparr>bufqueue := buf # bufqueue sink\<rparr>;
          queuelen = int (length (bufqueue sink1));
          max_buffers = (if units_max sink1 > 0
                         then get_buffers_max (unit_type sink1) (bufqueue sink1) (units_max sink1)
                         else - 1);
          soft_max_buffers = (if units_soft_max sink1 > 0
                              then get_buffers_max (unit_type sink1) (bufqueue sink1)
                                     (units_soft_max sink1)
                              else - 1)
      in case queue_clients_loop max_buffers soft_max_buffers now sink1 (clients_cookie sink1)
                0 0 False of
           Inl e \<Rightarrow> Inl e
         | Inr (sink2, usage0, need_signal) \<Rightarrow>
             queue_buffer_trim sink2 queuelen soft_max_buffers usage0)"

section \<open>The producer's entry point: \<open>gst_multi_fd_sink_render\<close>\<close>

datatype GstFlowReturn = GST_FLOW_OK | GST_FLOW_FLUSHING

definition render ::
  "GstMultiFdSink \<Rightarrow> GstBuffer \<Rightarrow> GstClockTime \<Rightarrow> failure + (GstFlowReturn \<times> GstMultiFdSink)" where
  "render sink buf now =
     (if \<not> sink_open sink then Inr (GST_FLOW_FLUSHING, sink)
      else
        (let in_caps = buf_header buf;
             sink1 = (if in_caps \<and> previous_buffer_in_caps sink = False
                      then sink\<lparr>streamheader := []\<rparr> else sink);
             sink2 = sink1\<lparr>previous_buffer_in_caps := in_caps\<rparr>
         in if in_caps
            then Inr (GST_FLOW_OK, sink2\<lparr>streamheader := streamheader sink2 @ [buf]\<rparr>)
            else (case queue_buffer sink2 buf now of
                    Inl e \<Rightarrow> Inl e
                  | Inr sink3 \<Rightarrow>
                      Inr (GST_FLOW_OK,
                           sink3\<lparr>bytes_to_serve :=
                                   bytes_to_serve sink3 + word_of_nat (buf_size buf)\<rparr>))))"

section \<open>Serving one client in \<open>gst_multi_fd_sink_handle_clients\<close>\<close>

text \<open>
  The body of the loop that checks the clients after the poll wait, for the client at
  position \<open>k\<close>. What the poll set reports for the descriptor is given as four flags:
  closed, error, readable, writable.
\<close>

definition service_client ::
  "GstMultiFdSink \<Rightarrow> nat \<Rightarrow> bool \<times> bool \<times> bool \<times> bool \<Rightarrow> ioctl_result \<Rightarrow> int list
     \<Rightarrow> (int \<times> write_errno) list \<Rightarrow> GstClockTime \<Rightarrow> (failure + GstMultiFdSink) option" where
  "service_client sink k events ioc reads ws now =
     (case events of (has_closed, has_error, can_read, can_write) \<Rightarrow>
        (let client = clients sink ! k in
         if status client \<noteq> GST_CLIENT_STATUS_FLUSHING \<and> status client \<noteq> GST_CLIENT_STATUS_OK
         then Some (Inr (remove_client_link sink k))
         else if has_closed
         then Some (Inr (remove_client_link
                 (set_client sink k (client\<lparr>status := GST_CLIENT_STATUS_CLOSED\<rparr>)) k))
         else if has_error
         then Some (Inr (remove_client_link
                 (set_client sink k (client\<lparr>status := GST_CLIENT_STATUS_ERROR\<rparr>)) k))
         else
           (case (if can_read then handle_client_read ioc reads client
                  else Some (True, client, [])) of
              None \<Rightarrow> None
            | Some (ok, client1, asked) \<Rightarrow>
                (let sink1 = set_client sink k client1 in
                 if \<not> ok then Some (Inr (remove_client_link sink1 k))
                 else if can_write then
                   (case handle_client_write sink1 client1 now ws of
                      None \<Rightarrow> None
                    | Some (Inl e) \<Rightarrow> Some (Inl e)
                    | Some (Inr (ok2, sink2, client2)) \<Rightarrow>
                        (let sink3 = set_client sink2 k client2 in
                         if \<not> ok2 then Some (Inr (remove_client_link sink3 k))
                         else Some (Inr sink3)))
                 else Some (Inr sink1)))))"

section \<open>Limits reached at an index of the queue\<close>

text \<open>
  What it means for the scan of \<open>find_limits\<close> to reach a limit at index \<open>j\<close>, said on
  the queue alone: the bytes of the buffers \<open>0..j\<close> added up in a \<open>gint\<close>, the first
  valid timestamp among them, and the comparisons \<open>>=\<close> the source makes. A time limit
  is reached at \<open>j\<close> only if buffer \<open>j\<close> has a timestamp. The buffers maximum has no such
  notion: \<open>find_limits\<close> never looks at it.
\<close>

definition run_bytes :: "GstBuffer list \<Rightarrow> int" where
  "run_bytes bs = foldl (\<lambda>acc buf. to_gint (acc + int (buf_size buf))) 0 bs"

definition first_ts :: "GstBuffer list \<Rightarrow> GstClockTime" where
  "first_ts bs = (case filter (\<lambda>t. t \<noteq> - 1) (map buf_timestamp bs) of [] \<Rightarrow> - 1 | t # _ \<Rightarrow> t)"

definition bytes_reached :: "GstBuffer list \<Rightarrow> int \<Rightarrow> nat \<Rightarrow> bool" where
  "bytes_reached q lim j = (lim \<le> run_bytes (take (Suc j) q))"

definition time_reached :: "GstBuffer list \<Rightarrow> GstClockTime \<Rightarrow> nat \<Rightarrow> bool" where
  "time_reached q lim j =
     (buf_timestamp (q ! j) \<noteq> - 1 \<and> lim \<le> first_ts (take (Suc j) q) - buf_timestamp (q ! j))"

definition max_reached :: "GstBuffer list \<Rightarrow> int \<Rightarrow> GstClockTime \<Rightarrow> nat \<Rightarrow> bool" where
  "max_reached q bytes_mx time_mx j =
     ((bytes_mx \<noteq> - 1 \<and> bytes_reached q bytes_mx j) \<or>
      (time_mx \<noteq> - 1 \<and> time_reached q time_mx j))"

definition first_max_reached :: "GstBuffer list \<Rightarrow> int \<Rightarrow> GstClockTime \<Rightarrow> nat \<Rightarrow> bool" where
  "first_max_reached q bytes_mx time_mx j =
     (max_reached q bytes_mx time_mx j \<and> \<not> list_ex (max_reached q bytes_mx time_mx) [0..<j])"

definition mins_reached :: "GstBuffer list \<Rightarrow> int \<Rightarrow> GstClockTime \<Rightarrow> nat \<Rightarrow> bool" where
  "mins_reached q bytes_mn time_mn j =
     ((bytes_mn = - 1 \<or> list_ex (bytes_reached q bytes_mn) [0..<Suc j]) \<and>
      (time_mn = - 1 \<or> list_ex (time_reached q time_mn) [0..<Suc j]))"

text \<open>
  The claim about the return value of \<open>find_limits\<close> in the spec's own words, for
  comparison with the source: all the minimum limits that are set are met by the queue
  (it holds that many bytes and buffers and spans that much time), and at least one
  maximum limit that is set is exceeded by it.
\<close>

definition all_mins_met :: "GstBuffer list \<Rightarrow> int \<Rightarrow> int \<Rightarrow> GstClockTime \<Rightarrow> bool" where
  "all_mins_met q bytes_mn buffers_mn time_mn =
     ((bytes_mn = - 1 \<or> bytes_mn \<le> run_bytes q) \<and>
      (buffers_mn = - 1 \<or> buffers_mn \<le> int (length q)) \<and>
      (time_mn = - 1 \<or> list_ex (time_reached q time_mn) [0..<length q]))"

definition some_max_exceeded :: "GstBuffer list \<Rightarrow> int \<Rightarrow> int \<Rightarrow> GstClockTime \<Rightarrow> bool" where
  "some_max_exceeded q bytes_mx buffers_mx time_mx =
     ((bytes_mx \<noteq> - 1 \<and> bytes_mx < run_bytes q) \<or>
      (buffers_mx \<noteq> - 1 \<and> buffers_mx < int (length q)) \<or>
      (time_mx \<noteq> - 1 \<and>
       list_ex (\<lambda>j. buf_timestamp (q ! j) \<noteq> - 1 \<and> time_mx < first_ts q - buf_timestamp (q ! j))
         [0..<length q]))"

section \<open>The invariant of the client positions\<close>

text \<open>The spec's invariant for one client: \<open>bufpos\<close> is \<open>-1\<close> or an index of the
  queue.\<close>

definition bufpos_in_queue :: "GstBuffer list \<Rightarrow> GstTCPClient \<Rightarrow> bool" where
  "bufpos_in_queue q client =
     (bufpos client = - 1 \<or> (0 \<le> bufpos client \<and> bufpos client < int (length q)))"

section \<open>Example states\<close>

text \<open>A data buffer without timestamp (a delta unit), a key frame, a header buffer, a
  fresh client on a descriptor and a started sink without clients: the building blocks of
  the concrete states at which the theorems below are instantiated.\<close>

definition delta_buf :: "nat \<Rightarrow> nat \<Rightarrow> GstBuffer" where
  "delta_buf n sz =
     \<lparr> buf_id = n, buf_size = sz, buf_timestamp = GST_CLOCK_TIME_NONE,
       buf_header = False, buf_delta = True \<rparr>"

definition key_buf :: "nat \<Rightarrow> nat \<Rightarrow> GstBuffer" where
  "key_buf n sz = (delta_buf n sz)\<lparr>buf_delta := False\<rparr>"

definition header_buf :: "nat \<Rightarrow> nat \<Rightarrow> GstBuffer" where
  "header_buf n sz = (delta_buf n sz)\<lparr>buf_header := True, buf_delta := False\<rparr>"

definition fresh_client :: "int \<Rightarrow> GstTCPClient" where
  "fresh_client f = (gst_multi_handle_sink_client_init GST_SYNC_METHOD_LATEST 0)\<lparr>fd := f\<rparr>"

definition started_sink :: GstMultiFdSink where
  "started_sink =
     \<lparr> bufqueue = [], clients = [], clients_cookie = 0, streamheader = [],
       previous_buffer_in_caps = False, sink_open = True,
       pad_caps = \<lparr>caps_format = 0, caps_streamheader = None\<rparr>,
       unit_type = GST_TCP_UNIT_TYPE_BUFFERS, units_max = - 1, units_soft_max = - 1,
       recover_policy = GST_RECOVER_POLICY_NONE, timeout = 0,
       def_sync_method = GST_SYNC_METHOD_LATEST,
       def_burst_unit = GST_TCP_UNIT_TYPE_UNDEFINED, def_burst_value = 0,
       bytes_min = - 1, buffers_min = - 1, time_min = - 1,
       handle_read = True, resend_streamheader = True,
       buffers_queued = 0, bytes_to_serve = 0, bytes_served = 0,
       fdset = [], signals = [] \<rparr>"

definition flushing_sink :: GstMultiFdSink where
  "flushing_sink = started_sink
     \<lparr> bufqueue := [delta_buf 3 10, delta_buf 2 10, delta_buf 1 10],
       clients := [(fresh_client 7)
         \<lparr>status := GST_CLIENT_STATUS_FLUSHING, bufpos := 2, flushcount := 1\<rparr>] \<rparr>"

definition header_sink :: GstMultiFdSink where
  "header_sink = started_sink
     \<lparr> bufqueue := [delta_buf 3 10, key_buf 2 10],
       streamheader := [header_buf 1 40] \<rparr>"

definition one_client_sink :: GstMultiFdSink where
  "one_client_sink = started_sink\<lparr>clients := [fresh_client 7], fdset := [(7, True, False)]\<rparr>"

definition burst_client :: GstTCPClient where
  "burst_client = (fresh_client 7)
     \<lparr> sync_method := GST_SYNC_METHOD_BURST,
       burst_min_unit := GST_TCP_UNIT_TYPE_BYTES, burst_min_value := 1000,
       burst_max_unit := GST_TCP_UNIT_TYPE_BYTES, burst_max_value := 2000, bufpos := 3 \<rparr>"

definition four_bufs :: "GstBuffer list" where
  "four_bufs = [delta_buf 4 500, delta_buf 3 500, delta_buf 2 500, delta_buf 1 500]"

definition eleven_deltas :: "GstBuffer list" where
  "eleven_deltas = map (\<lambda>n. delta_buf n 100) [11, 10, 9, 8, 7, 6, 5, 4, 3, 2, 1]"

text \<open>A trace of writes in which every call succeeds and takes a whole buffer of the
  queue, whichever it is.\<close>

definition complete_writes :: "GstBuffer list \<Rightarrow> (int \<times> write_errno) list \<Rightarrow> bool" where
  "complete_writes q ws =
     list_all (\<lambda>w. 0 \<le> fst w \<and> list_all (\<lambda>buf. to_gint (int (buf_size buf)) \<le> fst w) q) ws"

definition ok_client :: GstTCPClient where
  "ok_client = (fresh_client 7)
     \<lparr>bufpos := 0, new_connection := False, caps := Some (pad_caps started_sink)\<rparr>"

definition ok_sink :: GstMultiFdSink where
  "ok_sink = started_sink
     \<lparr>bufqueue := [delta_buf 1 10], clients := [ok_client], fdset := [(7, True, True)]\<rparr>"

definition ok_flushing_client :: GstTCPClient where
  "ok_flushing_client = ok_client\<lparr>flushcount := 1, status := GST_CLIENT_STATUS_FLUSHING\<rparr>"

definition five_small :: "GstBuffer list" where
  "five_small = map (\<lambda>n. delta_buf n 1) [5, 4, 3, 2, 1]"

definition three_stamped :: "GstBuffer list" where
  "three_stamped =
     [(delta_buf 3 10)\<lparr>buf_timestamp := 100\<rparr>, (delta_buf 2 10)\<lparr>buf_timestamp := 90\<rparr>,
      (delta_buf 1 10)\<lparr>buf_timestamp := 80\<rparr>]"

definition three_client_sink :: GstMultiFdSink where
  "three_client_sink = started_sink
     \<lparr> bufqueue := [delta_buf 1 10], timeout := 10,
       clients :=
         [(fresh_client 5)\<lparr>bufpos := 0, new_connection := False, last_activity_time := 95\<rparr>,
          (fresh_client 6)\<lparr>bufpos := 0, new_connection := False, last_activity_time := 0\<rparr>,
          (fresh_client 7)\<lparr>bufpos := - 1, new_connection := False, last_activity_time := 95\<rparr>],
       fdset := [(5, True, True), (6, True, True), (7, True, False)] \<rparr>"

definition short_burst_client :: GstTCPClient where
  "short_burst_client = (fresh_client 7)
     \<lparr> sync_method := GST_SYNC_METHOD_BURST,
       burst_min_unit := GST_TCP_UNIT_TYPE_BUFFERS, burst_min_value := 10,
       burst_max_unit := GST_TCP_UNIT_TYPE_BUFFERS, burst_max_value := - 1, bufpos := 3 \<rparr>"

definition header_seen_sink :: GstMultiFdSink where
  "header_seen_sink = header_sink
     \<lparr>streamheader := [header_buf 4 50], previous_buffer_in_caps := True\<rparr>"

definition data_seen_sink :: GstMultiFdSink where
  "data_seen_sink = header_sink
     \<lparr> bufqueue := [delta_buf 9 10, delta_buf 3 10], streamheader := [header_buf 4 50],
       buffers_queued := 1, bytes_to_serve := 10 \<rparr>"

section \<open>The hash lookup on a table without duplicate descriptors\<close>

lemma fd_hash_index_distinct:
  assumes "distinct (map fd cs)" and "k < length cs"
  shows "fd_hash_index cs (fd (cs ! k)) n = Some (n + k)"
  using assms
proof (induction cs arbitrary: k n)
  case Nil
  then show ?case by simp
next
  case (Cons c cs)
  show ?case
  proof (cases k)
    case 0
    then show ?thesis by simp
  next
    case (Suc j)
    with Cons.prems have j: "j < length cs" and d: "distinct (map fd cs)"
      and nin: "fd c \<notin> fd ` set cs"
      by auto
    from j have "fd (cs ! j) \<in> fd ` set cs" by (intro imageI nth_mem)
    with nin have "fd (cs ! j) \<noteq> fd c" by metis
    note j this d
    with Cons.IH [of j "Suc n"] Suc show ?thesis by simp
  qed
qed

lemma fd_hash_lookup_distinct:
  "distinct (map fd (clients sink)) \<Longrightarrow> k < length (clients sink) \<Longrightarrow>
   fd_hash_lookup sink (fd (clients sink ! k)) = Some k"
  using fd_hash_index_distinct [of "clients sink" k 0] by (simp add: fd_hash_lookup_def)

section \<open>\<open>find_limits\<close>: the trivial buffer limit test\<close>

text \<open>
  Claim C4. On a queue of length \<open>len > 0\<close>, a call of \<open>find_limits\<close> with \<open>buffers_min\<close>
  other than \<open>-1\<close> and greater than \<open>len\<close> returns \<open>min_idx = len - 1\<close>,
  \<open>max_idx = len - 1\<close> and \<open>FALSE\<close>, whatever the buffers hold and whatever the other five
  limits are: the result is fixed by the length alone, no byte or timestamp is looked at.
\<close>

theorem find_limits_buffers_min_above_len:
  assumes "0 < length q" and "buffers_mn \<noteq> - 1" and "int (length q) < buffers_mn"
  shows "find_limits q bytes_mn buffers_mn time_mn bytes_mx buffers_mx time_mx =
           Inr (int (length q) - 1, int (length q) - 1, False)"
  using assms by (simp add: find_limits_def Let_def)

theorem find_limits_buffers_min_above_len_witness:
  "0 < length [delta_buf 1 700] \<and> (5::int) \<noteq> - 1 \<and> int (length [delta_buf 1 700]) < 5 \<and>
   find_limits [delta_buf 1 700] 100 5 7 200 3 9 = Inr (0, 0, False)"
  using find_limits_buffers_min_above_len [of "[delta_buf 1 700]" 5 100 7 200 3 9]
  by simp

section \<open>\<open>remove_flush\<close> on a client that is already going away\<close>

text \<open>
  Claim C10. For a client of the table whose status is not OK (already flushing, removed,
  closed, ...), \<open>remove_flush\<close> on its descriptor changes nothing: the sink after the call
  is the sink before it, so neither \<open>flushcount\<close> nor the status is written, no client is
  removed and no signal is emitted. The table holds each descriptor once, as \<open>add_full\<close>
  keeps it.
\<close>

theorem remove_flush_not_ok_is_noop:
  assumes "distinct (map fd (clients sink))" and "k < length (clients sink)"
    and "status (clients sink ! k) \<noteq> GST_CLIENT_STATUS_OK"
  shows "remove_flush sink (fd (clients sink ! k)) = sink"
  using assms by (simp add: remove_flush_def fd_hash_lookup_distinct)

theorem remove_flush_not_ok_is_noop_witness:
  "distinct (map fd (clients flushing_sink)) \<and> 0 < length (clients flushing_sink) \<and>
   status (clients flushing_sink ! 0) \<noteq> GST_CLIENT_STATUS_OK \<and>
   fd (clients flushing_sink ! 0) = 7 \<and>
   remove_flush flushing_sink 7 = flushing_sink"
proof -
  have a: "distinct (map fd (clients flushing_sink))"
    by (simp add: flushing_sink_def started_sink_def)
  have b: "0 < length (clients flushing_sink)"
    by (simp add: flushing_sink_def started_sink_def)
  have c: "status (clients flushing_sink ! 0) \<noteq> GST_CLIENT_STATUS_OK"
    by (simp add: flushing_sink_def started_sink_def)
  have d: "fd (clients flushing_sink ! 0) = 7"
    by (simp add: flushing_sink_def started_sink_def fresh_client_def)
  from remove_flush_not_ok_is_noop [OF a b c] a b c d show ?thesis by simp
qed

section \<open>\<open>add_full\<close> on a descriptor that is already in the table\<close>

lemma fd_hash_index_present:
  "f \<in> fd ` set cs \<Longrightarrow> \<exists>k. fd_hash_index cs f n = Some k"
  by (induction cs arbitrary: n) auto

text \<open>
  Claim C8, as stated, fails: the check of the limits comes before the search for a
  duplicate, and a call that fails it returns without any notification. Here descriptor 7
  is in the table and \<open>add_full\<close> is called for it with a minimum of 10 buffers and a
  maximum of 5: no \<open>client-removed\<close> with status Duplicate is emitted.
\<close>

theorem add_full_duplicate_counterexample:
  "7 \<in> fd ` set (clients one_client_sink) \<and>
   SIGNAL_CLIENT_REMOVED 7 GST_CLIENT_STATUS_DUPLICATE \<notin>
     set (signals (add_full one_client_sink 7 GST_SYNC_METHOD_BURST
            GST_TCP_UNIT_TYPE_BUFFERS 10 GST_TCP_UNIT_TYPE_BUFFERS 5 0 False True))"
  by (simp add: add_full_def one_client_sink_def started_sink_def fresh_client_def)

text \<open>
  Claim C8, amended. For every call of \<open>add_full\<close> that passes the check of the limits,
  and for every call of \<open>add\<close>, with a descriptor already in the table: the only effect is
  the \<open>client-removed\<close> notification for that descriptor with status Duplicate. The sink is
  otherwise as before, so the client registered under the descriptor, the list, the
  cookie and the poll set are untouched, and the rejected client structure is nowhere in
  the state. No system call is made on the descriptor, so it is not closed. Every call of
  \<open>add_full\<close> that fails the check of the limits, whether the descriptor is in the table or
  not, leaves the sink as it is, emits nothing and makes no system call on the descriptor.
\<close>

theorem add_full_duplicate:
  "(f \<in> fd ` set (clients sink) \<and>
    \<not> (min_unit = max_unit \<and> max_value \<noteq> - 1 \<and> min_value \<noteq> - 1 \<and> max_value < min_value) \<longrightarrow>
      add_full sink f sm min_unit min_value max_unit max_value now wronly is_sock =
        sink\<lparr>signals := signals sink @ [SIGNAL_CLIENT_REMOVED f GST_CLIENT_STATUS_DUPLICATE]\<rparr> \<and>
      add_full_fd_calls sink f min_unit min_value max_unit max_value is_sock qos_dscp sockname = []) \<and>
   (f \<in> fd ` set (clients sink) \<longrightarrow>
      add sink f now wronly is_sock =
        sink\<lparr>signals := signals sink @ [SIGNAL_CLIENT_REMOVED f GST_CLIENT_STATUS_DUPLICATE]\<rparr> \<and>
      add_fd_calls sink f is_sock qos_dscp sockname = []) \<and>
   (min_unit = max_unit \<and> max_value \<noteq> - 1 \<and> min_value \<noteq> - 1 \<and> max_value < min_value \<longrightarrow>
      add_full sink f sm min_unit min_value max_unit max_value now wronly is_sock = sink \<and>
      add_full_fd_calls sink f min_unit min_value max_unit max_value is_sock qos_dscp sockname = [])"
proof -
  have dup: "\<exists>k. fd_hash_lookup sink f = Some k" if "f \<in> fd ` set (clients sink)"
    using fd_hash_index_present [OF that, of 0] by (simp add: fd_hash_lookup_def)
  have one: "f \<in> fd ` set (clients sink) \<and>
    \<not> (min_unit = max_unit \<and> max_value \<noteq> - 1 \<and> min_value \<noteq> - 1 \<and> max_value < min_value) \<longrightarrow>
      add_full sink f sm min_unit min_value max_unit max_value now wronly is_sock =
        sink\<lparr>signals := signals sink @ [SIGNAL_CLIENT_REMOVED f GST_CLIENT_STATUS_DUPLICATE]\<rparr> \<and>
      add_full_fd_calls sink f min_unit min_value max_unit max_value is_sock qos_dscp sockname = []"
  proof
    assume h: "f \<in> fd ` set (clients sink) \<and>
      \<not> (min_unit = max_unit \<and> max_value \<noteq> - 1 \<and> min_value \<noteq> - 1 \<and> max_value < min_value)"
    then obtain k where "fd_hash_lookup sink f = Some k" using dup by blast
    with h show "add_full sink f sm min_unit min_value max_unit max_value now wronly is_sock =
        sink\<lparr>signals := signals sink @ [SIGNAL_CLIENT_REMOVED f GST_CLIENT_STATUS_DUPLICATE]\<rparr> \<and>
      add_full_fd_calls sink f min_unit min_value max_unit max_value is_sock qos_dscp sockname = []"
      by (simp add: add_full_def add_full_fd_calls_def Let_def)
  qed
  have two: "f \<in> fd ` set (clients sink) \<longrightarrow>
      add sink f now wronly is_sock =
        sink\<lparr>signals := signals sink @ [SIGNAL_CLIENT_REMOVED f GST_CLIENT_STATUS_DUPLICATE]\<rparr> \<and>
      add_fd_calls sink f is_sock qos_dscp sockname = []"
  proof
    assume "f \<in> fd ` set (clients sink)"
    then obtain k where "fd_hash_lookup sink f = Some k" using dup by blast
    then show "add sink f now wronly is_sock =
        sink\<lparr>signals := signals sink @ [SIGNAL_CLIENT_REMOVED f GST_CLIENT_STATUS_DUPLICATE]\<rparr> \<and>
      add_fd_calls sink f is_sock qos_dscp sockname = []"
      by (simp add: add_def add_fd_calls_def add_full_def add_full_fd_calls_def Let_def)
  qed
  have three: "min_unit = max_unit \<and> max_value \<noteq> - 1 \<and> min_value \<noteq> - 1 \<and> max_value < min_value \<longrightarrow>
      add_full sink f sm min_unit min_value max_unit max_value now wronly is_sock = sink \<and>
      add_full_fd_calls sink f min_unit min_value max_unit max_value is_sock qos_dscp sockname = []"
    by (simp add: add_full_def add_full_fd_calls_def)
  show ?thesis by (rule conjI [OF one conjI [OF two three]])
qed

theorem add_full_duplicate_witness:
  "7 \<in> fd ` set (clients one_client_sink) \<and>
   \<not> (GST_TCP_UNIT_TYPE_BUFFERS = GST_TCP_UNIT_TYPE_BUFFERS \<and> (10 :: 64 word) \<noteq> - 1 \<and>
      (5 :: 64 word) \<noteq> - 1 \<and> (10 :: 64 word) < 5) \<and>
   add_full one_client_sink 7 GST_SYNC_METHOD_BURST GST_TCP_UNIT_TYPE_BUFFERS 5
       GST_TCP_UNIT_TYPE_BUFFERS 10 0 False True =
     one_client_sink\<lparr>signals := [SIGNAL_CLIENT_REMOVED 7 GST_CLIENT_STATUS_DUPLICATE]\<rparr> \<and>
   add_full_fd_calls one_client_sink 7 GST_TCP_UNIT_TYPE_BUFFERS 5
       GST_TCP_UNIT_TYPE_BUFFERS 10 True 0 (Some (AF_INET, False)) = [] \<and>
   add one_client_sink 7 0 False True =
     one_client_sink\<lparr>signals := [SIGNAL_CLIENT_REMOVED 7 GST_CLIENT_STATUS_DUPLICATE]\<rparr> \<and>
   add_fd_calls one_client_sink 7 True 0 (Some (AF_INET, False)) = [] \<and>
   (GST_TCP_UNIT_TYPE_BUFFERS = GST_TCP_UNIT_TYPE_BUFFERS \<and> (5 :: 64 word) \<noteq> - 1 \<and>
      (10 :: 64 word) \<noteq> - 1 \<and> (5 :: 64 word) < 10) \<and>
   add_full one_client_sink 8 GST_SYNC_METHOD_BURST GST_TCP_UNIT_TYPE_BUFFERS 10
       GST_TCP_UNIT_TYPE_BUFFERS 5 0 False True = one_client_sink \<and>
   add_full_fd_calls one_client_sink 8 GST_TCP_UNIT_TYPE_BUFFERS 10
       GST_TCP_UNIT_TYPE_BUFFERS 5 True 0 (Some (AF_INET, False)) = []"
proof -
  have a: "7 \<in> fd ` set (clients one_client_sink)"
    by (simp add: one_client_sink_def started_sink_def fresh_client_def)
  have b: "\<not> (GST_TCP_UNIT_TYPE_BUFFERS = GST_TCP_UNIT_TYPE_BUFFERS \<and> (10 :: 64 word) \<noteq> - 1 \<and>
      (5 :: 64 word) \<noteq> - 1 \<and> (10 :: 64 word) < 5)"
    by simp
  have c: "signals one_client_sink = []" by (simp add: one_client_sink_def started_sink_def)
  have d: "GST_TCP_UNIT_TYPE_BUFFERS = GST_TCP_UNIT_TYPE_BUFFERS \<and> (5 :: 64 word) \<noteq> - 1 \<and>
      (10 :: 64 word) \<noteq> - 1 \<and> (5 :: 64 word) < 10"
    by simp
  from add_full_duplicate [of 7 one_client_sink GST_TCP_UNIT_TYPE_BUFFERS GST_TCP_UNIT_TYPE_BUFFERS
         10 5 GST_SYNC_METHOD_BURST 0 False True 0 "Some (AF_INET, False)"]
       add_full_duplicate [of 8 one_client_sink GST_TCP_UNIT_TYPE_BUFFERS GST_TCP_UNIT_TYPE_BUFFERS
         5 10 GST_SYNC_METHOD_BURST 0 False True 0 "Some (AF_INET, False)"]
       a b c d
  show ?thesis by simp
qed

text \<open>For comparison, the calls that a successful \<open>add_full\<close> makes on the descriptor of
  a socket, with a DSCP value configured.\<close>

lemma add_full_fd_calls_new_socket:
  "add_full_fd_calls started_sink 7 GST_TCP_UNIT_TYPE_BUFFERS 5 GST_TCP_UNIT_TYPE_BUFFERS 10
     True 0 (Some (AF_INET, False)) =
   [FCNTL_SETFL 7, FCNTL_GETFL 7, FSTAT 7, GETSOCKNAME 7, SETSOCKOPT 7]"
  by (simp add: add_full_fd_calls_def started_sink_def fd_hash_lookup_def
        setup_dscp_client_calls_def)

section \<open>\<open>handle_client_read\<close>: a failed read\<close>

text \<open>What the function does as the spec says: no byte available means the peer has
  closed, a read of no byte is an error, and no more than 512 bytes are ever asked of
  \<open>read\<close>. A \<open>FALSE\<close> from the function makes the service of the client remove it.\<close>

lemma handle_client_read_peer_closed:
  "handle_client_read (IOCTL_AVAIL 0) reads client =
     Some (False, client\<lparr>status := GST_CLIENT_STATUS_CLOSED\<rparr>, [])"
  by (simp add: handle_client_read_def)

lemma read_drain_zero_read:
  "read_drain avail (0 # reads) client asked =
     Some (False, client\<lparr>status := GST_CLIENT_STATUS_ERROR\<rparr>, asked @ [min avail 512])"
  by (simp add: Let_def)

lemma read_drain_asks_at_most_512:
  "read_drain avail reads client asked = Some (ok, client', asked') \<Longrightarrow>
   list_all (\<lambda>n. n \<le> 512) asked \<Longrightarrow> list_all (\<lambda>n. n \<le> 512) asked'"
  by (induction avail reads client asked rule: read_drain.induct)
     (auto simp: Let_def split: if_splits)

lemma handle_client_read_asks_at_most_512:
  "handle_client_read ioc reads client = Some (ok, client', asked) \<Longrightarrow>
   list_all (\<lambda>n. n \<le> 512) asked"
  by (cases ioc)
     (auto simp: handle_client_read_def split: if_splits dest: read_drain_asks_at_most_512)

lemma service_client_read_failure_removes:
  assumes "k < length (clients s)" and "status (clients s ! k) = GST_CLIENT_STATUS_OK"
    and "\<not> currently_removing (clients s ! k)"
    and "handle_client_read ioc reads (clients s ! k) = Some (False, c', asked)"
    and "fd c' = fd (clients s ! k)" and "currently_removing c' = currently_removing (clients s ! k)"
  shows "\<exists>s'. service_client s k (False, False, True, w) ioc reads ws now = Some (Inr s') \<and>
           clients s' = take k (clients s) @ drop (Suc k) (clients s) \<and>
           signals s' = signals s @
             [SIGNAL_CLIENT_REMOVED (fd c') (status c'), SIGNAL_CLIENT_FD_REMOVED (fd c')]"
  using assms
  by (simp add: service_client_def remove_client_link_def set_client_def)

text \<open>A read that fails is not taken as an error: it adds one to the count of
  outstanding bytes and the loop goes on with the next read.\<close>

lemma read_drain_failed_read:
  "read_drain avail (- 1 # reads) client asked =
     (if to_gint (avail + 1) > 0
      then read_drain (to_gint (avail + 1)) reads client (asked @ [min avail 512])
      else Some (True, client, asked @ [min avail 512]))"
  by (simp add: Let_def)

text \<open>
  Claim C3 says that any read error makes the client's status Error. A failed \<open>read\<close>
  returns \<open>-1\<close>; the test in the loop is \<open>nread < -1\<close>, which \<open>-1\<close> does not meet. With 10
  bytes announced, a first read that fails and a second that returns 11 bytes, the
  function returns \<open>TRUE\<close> and the client is as it was, status OK included.
\<close>

theorem handle_client_read_failed_read:
  "handle_client_read (IOCTL_AVAIL 10) [- 1, 11] (fresh_client 7) =
     Some (True, fresh_client 7, [10, 11])"
  by (simp add: handle_client_read_def to_gint_def Let_def)

section \<open>The start position of a burst client\<close>

lemma find_limits_loop_max_idx:
  assumes "find_limits_loop bs i b f bmn tmn bmx tmx mn hit = (mn', mx', r)"
    and "hit \<longrightarrow> 1 \<le> i" and "0 \<le> i"
  shows "mx' = - 1 \<or> 0 \<le> mx'"
  using assms
proof (induction bs arbitrary: i b f bmn tmn mn hit)
  case Nil
  then show ?case by simp
next
  case (Cons buf rest)
  show ?case
  proof (cases hit)
    case True
    with Cons.prems show ?thesis by (simp add: Let_def)
  next
    case False
    with Cons.prems(1) obtain b' f' bmn' tmn' mn'' hit' where
      "find_limits_loop rest (i + 1) b' f' bmn' tmn' bmx tmx mn'' hit' = (mn', mx', r)"
      by (simp add: Let_def)
    moreover from Cons.prems(3) have "hit' \<longrightarrow> 1 \<le> i + 1" and "0 \<le> i + 1" by simp_all
    ultimately show ?thesis by (rule Cons.IH)
  qed
qed

lemma find_limits_unfold:
  assumes "q \<noteq> []" and "nmn = - 1 \<or> \<not> int (length q) < nmn"
    and "find_limits_loop q 0 0 (- 1) bmn tmn bmx tmx (- 1) False = (a, c, d)"
  shows "find_limits q bmn nmn tmn bmx nmx tmx =
           Inr (if a = - 1 then (if c = - 1 then int (length q) - 1 else c) else a,
                if c = - 1 then int (length q) - 1 else c, d)"
  using assms by (auto simp: find_limits_def Let_def)

lemma find_limits_max_idx:
  assumes "find_limits q bmn nmn tmn bmx nmx tmx = Inr (mn, mx, r)"
  shows "0 \<le> mx"
proof -
  from assms have len: "0 < int (length q)"
    by (simp add: find_limits_def Let_def split: if_splits)
  show ?thesis
  proof (cases "nmn \<noteq> - 1 \<and> int (length q) < nmn")
    case True
    with assms len have "mx = int (length q) - 1"
      by (simp add: find_limits_def Let_def split: if_splits)
    with len show ?thesis by simp
  next
    case False
    obtain a c d where loop: "find_limits_loop q 0 0 (- 1) bmn tmn bmx tmx (- 1) False = (a, c, d)"
      by (cases "find_limits_loop q 0 0 (- 1) bmn tmn bmx tmx (- 1) False") auto
    from find_limits_loop_max_idx [OF loop] have "c = - 1 \<or> 0 \<le> c" by simp
    moreover from len False have "q \<noteq> []" and "nmn = - 1 \<or> \<not> int (length q) < nmn"
      by auto
    from find_limits_unfold [OF this loop, of nmx] assms
    have "mx = (if c = - 1 then int (length q) - 1 else c)"
      by simp
    ultimately show ?thesis using len by auto
  qed
qed

lemma find_limits_nonempty:
  "q \<noteq> [] \<Longrightarrow> \<exists>mn mx r. find_limits q bmn nmn tmn bmx nmx tmx = Inr (mn, mx, r)"
  by (cases "find_limits_loop q 0 0 (- 1) bmn tmn bmx tmx (- 1) False")
     (auto simp: find_limits_def Let_def)

text \<open>The limits that \<open>count_burst_unit\<close> hands to \<open>find_limits\<close> for a unit and a value:
  the value in the place of its unit, \<open>-1\<close> (no limit) in the other two.\<close>

lemma assign_value_unset:
  "assign_value unit val (- 1, - 1, GST_CLOCK_TIME_NONE) =
     (if unit = GST_TCP_UNIT_TYPE_BYTES then to_gint (uint val) else - 1,
      if unit = GST_TCP_UNIT_TYPE_BUFFERS then to_gint (uint val) else - 1,
      if unit = GST_TCP_UNIT_TYPE_TIME then val else GST_CLOCK_TIME_NONE)"
  by (cases unit) (simp_all add: assign_value_def)

text \<open>
  Claim C6. For a new client with sync method Burst on a non-empty queue: \<open>find_limits\<close>,
  called on the queue with the limits that \<open>assign_value\<close> makes of the client's burst
  minimum (unit and value) and of its burst maximum, returns some \<open>min_idx\<close> and
  \<open>max_idx\<close>, and the start index that \<open>new_client\<close> returns is this \<open>min_idx\<close>, except that
  it is \<open>max (max_idx - 1, 0)\<close> when \<open>max_idx \<le> min_idx\<close>. (The source also asks for
  \<open>max_idx \<noteq> -1\<close>, which always holds.) The client itself is not changed.
\<close>

theorem new_client_burst:
  assumes "sync_method client = GST_SYNC_METHOD_BURST" and "q \<noteq> []"
    and "assign_value (burst_min_unit client) (burst_min_value client)
           (- 1, - 1, GST_CLOCK_TIME_NONE) = (bytes_mn, buffers_mn, time_mn)"
    and "assign_value (burst_max_unit client) (burst_max_value client)
           (- 1, - 1, GST_CLOCK_TIME_NONE) = (bytes_mx, buffers_mx, time_mx)"
  shows "\<exists>min_idx max_idx ok.
           find_limits q bytes_mn buffers_mn time_mn bytes_mx buffers_mx time_mx =
             Inr (min_idx, max_idx, ok) \<and>
           new_client q client =
             Inr (if max_idx \<le> min_idx then max (max_idx - 1) 0 else min_idx, client)"
proof -
  from find_limits_nonempty [OF assms(2)] obtain min_idx max_idx ok where
    fl: "find_limits q bytes_mn buffers_mn time_mn bytes_mx buffers_mx time_mx =
           Inr (min_idx, max_idx, ok)"
    by blast
  from find_limits_max_idx [OF fl] have nonneg: "max_idx \<noteq> - 1" by simp
  from assms(3,4) fl have cb:
    "count_burst_unit q (burst_min_unit client) (burst_min_value client)
       (burst_max_unit client) (burst_max_value client) = Inr (min_idx, max_idx, ok)"
    by (simp add: count_burst_unit_def)
  with assms(1) nonneg have
    "new_client q client = Inr (if max_idx \<le> min_idx then max (max_idx - 1) 0 else min_idx, client)"
    by (simp add: new_client_def)
  with fl show ?thesis by blast
qed

text \<open>Two clients on a queue of four buffers of 500 bytes. The first asks for at least
  1000 and at most 2000 bytes: \<open>find_limits\<close> gives \<open>min_idx = 1\<close> and \<open>max_idx = 3\<close>, and
  the client starts at 1. The second asks for at least 10 buffers, more than the queue
  holds: \<open>find_limits\<close> gives \<open>min_idx = max_idx = 3\<close>, and the client starts at
  \<open>max_idx - 1 = 2\<close>.\<close>

theorem new_client_burst_witness:
  "sync_method burst_client = GST_SYNC_METHOD_BURST \<and> four_bufs \<noteq> [] \<and>
   assign_value (burst_min_unit burst_client) (burst_min_value burst_client)
     (- 1, - 1, GST_CLOCK_TIME_NONE) = (1000, - 1, - 1) \<and>
   assign_value (burst_max_unit burst_client) (burst_max_value burst_client)
     (- 1, - 1, GST_CLOCK_TIME_NONE) = (2000, - 1, - 1) \<and>
   find_limits four_bufs 1000 (- 1) (- 1) 2000 (- 1) (- 1) = Inr (1, 3, False) \<and>
   new_client four_bufs burst_client = Inr (1, burst_client) \<and>
   sync_method short_burst_client = GST_SYNC_METHOD_BURST \<and>
   assign_value (burst_min_unit short_burst_client) (burst_min_value short_burst_client)
     (- 1, - 1, GST_CLOCK_TIME_NONE) = (- 1, 10, - 1) \<and>
   assign_value (burst_max_unit short_burst_client) (burst_max_value short_burst_client)
     (- 1, - 1, GST_CLOCK_TIME_NONE) = (- 1, - 1, - 1) \<and>
   find_limits four_bufs (- 1) 10 (- 1) (- 1) (- 1) (- 1) = Inr (3, 3, False) \<and>
   new_client four_bufs short_burst_client = Inr (2, short_burst_client)"
proof -
  have a: "sync_method burst_client = GST_SYNC_METHOD_BURST"
    by (simp add: burst_client_def)
  have b: "four_bufs \<noteq> []" by (simp add: four_bufs_def)
  have c: "assign_value (burst_min_unit burst_client) (burst_min_value burst_client)
     (- 1, - 1, GST_CLOCK_TIME_NONE) = (1000, - 1, - 1)"
    by (simp add: assign_value_def burst_client_def to_gint_def GST_CLOCK_TIME_NONE_def)
  have d: "assign_value (burst_max_unit burst_client) (burst_max_value burst_client)
     (- 1, - 1, GST_CLOCK_TIME_NONE) = (2000, - 1, - 1)"
    by (simp add: assign_value_def burst_client_def to_gint_def GST_CLOCK_TIME_NONE_def)
  have e: "find_limits four_bufs 1000 (- 1) (- 1) 2000 (- 1) (- 1) = Inr (1, 3, False)"
    by (simp add: four_bufs_def find_limits_def delta_buf_def to_gint_def Let_def
          GST_CLOCK_TIME_NONE_def)
  have a': "sync_method short_burst_client = GST_SYNC_METHOD_BURST"
    by (simp add: short_burst_client_def)
  have c': "assign_value (burst_min_unit short_burst_client) (burst_min_value short_burst_client)
     (- 1, - 1, GST_CLOCK_TIME_NONE) = (- 1, 10, - 1)"
    by (simp add: assign_value_def short_burst_client_def to_gint_def GST_CLOCK_TIME_NONE_def)
  have u: "uint (- 1 :: 64 word) = 2 ^ 64 - 1"
    by (simp add: unsigned_minus_1_eq_mask mask_eq_exp_minus_1)
  have d': "assign_value (burst_max_unit short_burst_client) (burst_max_value short_burst_client)
     (- 1, - 1, GST_CLOCK_TIME_NONE) = (- 1, - 1, - 1)"
    by (simp add: assign_value_def short_burst_client_def to_gint_def GST_CLOCK_TIME_NONE_def u)
  have e': "find_limits four_bufs (- 1) 10 (- 1) (- 1) (- 1) (- 1) = Inr (3, 3, False)"
    by (simp add: four_bufs_def find_limits_def Let_def)
  from new_client_burst [OF a b c d] e
  have f: "new_client four_bufs burst_client = Inr (1, burst_client)" by simp
  from new_client_burst [OF a' b c' d'] e'
  have f': "new_client four_bufs short_burst_client = Inr (2, short_burst_client)" by simp
  from a b c d e f a' c' d' e' f' show ?thesis by simp
qed

section \<open>Recovery of a lagging client with policy \<open>RESYNC_KEYFRAME\<close>\<close>

lemma keyframe_scan_none:
  assumes "- 1 \<le> p" and "p < int (length q)"
    and "\<forall>j. j \<le> nat p \<longrightarrow> \<not> is_sync_frame (q ! j)"
  shows "keyframe_scan q p = Inr (- 1)"
  using assms
proof (induction "nat (p + 1)" arbitrary: p)
  case 0
  then have "p = - 1" by auto
  then show ?case by (simp add: keyframe_scan.simps)
next
  case (Suc n)
  then have p: "0 \<le> p" and n: "n = nat (p - 1 + 1)" by auto
  from Suc.prems(3) have here: "\<not> is_sync_frame (q ! nat p)" by simp
  from Suc.prems p have "- 1 \<le> p - 1" and "p - 1 < int (length q)"
    and "\<forall>j. j \<le> nat (p - 1) \<longrightarrow> \<not> is_sync_frame (q ! j)" by auto
  from Suc.hyps(1) [OF n this] have "keyframe_scan q (p - 1) = Inr (- 1)" .
  with p here Suc.prems(2) show ?case
    by (subst keyframe_scan.simps) simp
qed

lemma MIN_len_softmax_in_range:
  assumes "1 \<le> len" and "len < 2 ^ 31" and "1 \<le> sm" and "sm \<le> 2 ^ 31"
  shows "MIN_len_softmax len sm = min (len - 1) (sm - 1)"
  using assms by (auto simp: MIN_len_softmax_def to_guint_def to_gint_def Let_def min_def)

lemma time_scan_range:
  "time_scan mx i first bs = Some r \<Longrightarrow> i < r \<and> r \<le> i + int (length bs)"
  by (induction bs arbitrary: i first) (fastforce simp: Let_def split: if_splits)+

lemma bytes_scan_range:
  "bytes_scan mx i acc bs = Some r \<Longrightarrow> i < r \<and> r \<le> i + int (length bs)"
  by (induction bs arbitrary: i acc) (fastforce simp: Let_def split: if_splits)+

lemma to_gint_upper: "to_gint x < 2 ^ 31"
proof -
  have "(x + 2 ^ 31) mod 2 ^ 32 < (2 ^ 32 :: int)" by simp
  then show ?thesis by (simp add: to_gint_def)
qed

lemma get_buffers_max_upper:
  assumes "int (length q) < 2 ^ 31"
  shows "get_buffers_max u q mx \<le> 2 ^ 31"
proof (cases u)
  case GST_TCP_UNIT_TYPE_UNDEFINED
  with to_gint_upper [of mx] show ?thesis by (simp add: get_buffers_max_def)
next
  case GST_TCP_UNIT_TYPE_BUFFERS
  with to_gint_upper [of mx] show ?thesis by (simp add: get_buffers_max_def)
next
  case GST_TCP_UNIT_TYPE_TIME
  with assms show ?thesis
    by (auto simp: get_buffers_max_def split: option.splits dest: time_scan_range)
next
  case GST_TCP_UNIT_TYPE_BYTES
  with assms show ?thesis
    by (auto simp: get_buffers_max_def split: option.splits dest: bytes_scan_range)
qed

text \<open>
  Claim C1, as stated, fails: after the backwards search there is no fall through to the
  soft limit. In the spec's scenario (eleven delta-only buffers after the prepend, a soft
  maximum of 5 buffers, the client at position 6) the search runs from index 4 down to 0,
  finds no sync frame and leaves \<open>-1\<close> as the new position, not the 5 that
  \<open>get_buffers_max\<close> gives for the soft maximum.
\<close>

theorem recover_client_keyframe_counterexample:
  "list_all buf_delta eleven_deltas \<and>
   get_buffers_max GST_TCP_UNIT_TYPE_BUFFERS eleven_deltas 5 = 5 \<and>
   recover_client GST_RECOVER_POLICY_RESYNC_KEYFRAME GST_TCP_UNIT_TYPE_BUFFERS 5 eleven_deltas 6
     = Inr (- 1)"
  by (simp add: eleven_deltas_def delta_buf_def get_buffers_max_def to_gint_def
        recover_client_def MIN_len_softmax_def to_guint_def is_sync_frame_def
        keyframe_scan.simps)

text \<open>
  Claim C1, amended. For every non-empty queue with no non-delta buffer at any index up to
  \<open>min (len - 1, soft_max - 1)\<close>, where \<open>soft_max = get_buffers_max (units_soft_max)\<close> is
  positive (recovery is only run then), the recover policy \<open>RESYNC_KEYFRAME\<close> returns
  \<open>-1\<close> as the new position: the client waits for the next buffer. The position the
  client had plays no part.
\<close>

theorem recover_client_keyframe_none:
  assumes "q \<noteq> []" and "int (length q) < 2 ^ 31"
    and "0 < get_buffers_max u q soft"
    and "\<forall>j. int j \<le> min (int (length q) - 1) (get_buffers_max u q soft - 1) \<longrightarrow> buf_delta (q ! j)"
  shows "recover_client GST_RECOVER_POLICY_RESYNC_KEYFRAME u soft q pos = Inr (- 1)"
proof -
  let ?sm = "get_buffers_max u q soft"
  let ?p = "min (int (length q) - 1) (?sm - 1)"
  from assms(1) have len: "1 \<le> int (length q)" by (cases q) auto
  from len assms(2,3) get_buffers_max_upper [OF assms(2), of u soft]
  have m: "MIN_len_softmax (int (length q)) ?sm = ?p"
    by (intro MIN_len_softmax_in_range) auto
  from assms(1,3) have p0: "0 \<le> ?p" by simp
  then have "- 1 \<le> ?p" by simp
  moreover have "?p < int (length q)" by simp
  moreover have "\<forall>j. j \<le> nat ?p \<longrightarrow> \<not> is_sync_frame (q ! j)"
  proof (intro allI impI)
    fix j assume "j \<le> nat ?p"
    with p0 have "int j \<le> ?p" by linarith
    with assms(4) show "\<not> is_sync_frame (q ! j)" by (simp add: is_sync_frame_def)
  qed
  ultimately have "keyframe_scan q ?p = Inr (- 1)" by (rule keyframe_scan_none)
  with m show ?thesis by (simp add: recover_client_def)
qed

theorem recover_client_keyframe_none_witness:
  "eleven_deltas \<noteq> [] \<and> int (length eleven_deltas) < 2 ^ 31 \<and>
   0 < get_buffers_max GST_TCP_UNIT_TYPE_BUFFERS eleven_deltas 5 \<and>
   list_all buf_delta eleven_deltas \<and>
   recover_client GST_RECOVER_POLICY_RESYNC_KEYFRAME GST_TCP_UNIT_TYPE_BUFFERS 5 eleven_deltas 6
     = Inr (- 1)"
proof -
  have a: "eleven_deltas \<noteq> []" by (simp add: eleven_deltas_def)
  have b: "int (length eleven_deltas) < 2 ^ 31" by (simp add: eleven_deltas_def)
  have c: "0 < get_buffers_max GST_TCP_UNIT_TYPE_BUFFERS eleven_deltas 5"
    by (simp add: get_buffers_max_def to_gint_def)
  have d: "list_all buf_delta eleven_deltas" by (simp add: eleven_deltas_def delta_buf_def)
  have e: "\<forall>j. int j \<le> min (int (length eleven_deltas) - 1)
                 (get_buffers_max GST_TCP_UNIT_TYPE_BUFFERS eleven_deltas 5 - 1)
             \<longrightarrow> buf_delta (eleven_deltas ! j)"
  proof (intro allI impI)
    fix j
    assume "int j \<le> min (int (length eleven_deltas) - 1)
                 (get_buffers_max GST_TCP_UNIT_TYPE_BUFFERS eleven_deltas 5 - 1)"
    then have "j < length eleven_deltas" by (simp add: eleven_deltas_def)
    with d show "buf_delta (eleven_deltas ! j)" by (simp add: list_all_length)
  qed
  from recover_client_keyframe_none [OF a b c e, of 6] a b c d show ?thesis by simp
qed

section \<open>\<open>remove_flush\<close> and the draining of a flushing client\<close>

lemma remove_flush_ok:
  assumes "distinct (map fd (clients sink))" and "k < length (clients sink)"
    and "status (clients sink ! k) = GST_CLIENT_STATUS_OK"
  shows "remove_flush sink (fd (clients sink ! k)) =
           set_client sink k ((clients sink ! k)
             \<lparr> flushcount := bufpos (clients sink ! k) + 1,
               status := GST_CLIENT_STATUS_FLUSHING \<rparr>)"
  using assms by (simp add: remove_flush_def fd_hash_lookup_distinct Let_def)

lemma pick_buffer_flushing_decrements:
  assumes "pick_buffer s c True = PICK_CONTINUE s' c'" and "flushcount c \<noteq> - 1"
  shows "flushcount c' = flushcount c - 1 \<and> bufpos c' = bufpos c - 1 \<and>
         sending c' \<noteq> [] \<and> last (sending c') = bufqueue s ! nat (bufpos c)"
  using assms
  by (auto simp: pick_buffer_def choose_start_def client_queue_buffer_def Let_def
           split: if_splits)

lemma handle_client_write_flushed:
  assumes "status c = GST_CLIENT_STATUS_FLUSHING" and "flushcount c = 0" and "sending c = []"
  shows "\<exists>s'. handle_client_write s c now ws =
                 Some (Inr (False, s', c\<lparr>status := GST_CLIENT_STATUS_REMOVED\<rparr>)) \<and>
              clients s' = clients s \<and> signals s' = signals s \<and> clients_cookie s' = clients_cookie s"
  using assms
  by (cases ws) (auto simp: handle_client_write_def pick_buffer_def choose_start_def)

lemma service_client_flushed:
  assumes "k < length (clients s)" and "status (clients s ! k) = GST_CLIENT_STATUS_FLUSHING"
    and "flushcount (clients s ! k) = 0" and "sending (clients s ! k) = []"
    and "\<not> currently_removing (clients s ! k)"
  shows "\<exists>s'. service_client s k (False, False, False, True) ioc reads ws now = Some (Inr s') \<and>
              clients s' = take k (clients s) @ drop (Suc k) (clients s) \<and>
              signals s' = signals s @
                [SIGNAL_CLIENT_REMOVED (fd (clients s ! k)) GST_CLIENT_STATUS_REMOVED,
                 SIGNAL_CLIENT_FD_REMOVED (fd (clients s ! k))]"
proof -
  let ?c = "clients s ! k"
  have same: "set_client s k ?c = s" by (simp add: set_client_def)
  from handle_client_write_flushed [OF assms(2-4), of s now ws] obtain s1 where
    w: "handle_client_write s ?c now ws =
          Some (Inr (False, s1, ?c\<lparr>status := GST_CLIENT_STATUS_REMOVED\<rparr>))"
    and cl: "clients s1 = clients s" and sg: "signals s1 = signals s"
    by blast
  from assms(1,2) w same have
    "service_client s k (False, False, False, True) ioc reads ws now =
       Some (Inr (remove_client_link
          (set_client s1 k (?c\<lparr>status := GST_CLIENT_STATUS_REMOVED\<rparr>)) k))"
    by (simp add: service_client_def)
  moreover from assms(1,5) cl sg have
    "clients (remove_client_link (set_client s1 k (?c\<lparr>status := GST_CLIENT_STATUS_REMOVED\<rparr>)) k)
       = take k (clients s) @ drop (Suc k) (clients s)"
    "signals (remove_client_link (set_client s1 k (?c\<lparr>status := GST_CLIENT_STATUS_REMOVED\<rparr>)) k)
       = signals s @ [SIGNAL_CLIENT_REMOVED (fd ?c) GST_CLIENT_STATUS_REMOVED,
                      SIGNAL_CLIENT_FD_REMOVED (fd ?c)]"
    by (simp_all add: remove_client_link_def set_client_def)
  ultimately show ?thesis by simp
qed

text \<open>
  Claim C7, as stated, fails for a client of the table that is not in status OK: the
  guard at the top of \<open>remove_flush\<close> leaves it alone. Here the client on descriptor 7 is
  already flushing, at position 2 with one buffer left to flush; a second \<open>remove_flush\<close>
  does not set \<open>flushcount\<close> to \<open>bufpos + 1 = 3\<close>, it stays 1.
\<close>

theorem remove_flush_counterexample:
  "7 \<in> fd ` set (clients flushing_sink) \<and>
   bufpos (clients flushing_sink ! 0) + 1 = 3 \<and>
   flushcount (clients (remove_flush flushing_sink 7) ! 0) = 1"
  by (simp add: flushing_sink_def started_sink_def fresh_client_def remove_flush_def
        fd_hash_lookup_def)

text \<open>
  Claim C7, amended: the claim for the clients of the table whose status is OK. First,
  \<open>remove_flush\<close> sets such a client's \<open>flushcount\<close> to \<open>bufpos + 1\<close> and its status to
  Flushing and changes nothing else. Second, whenever the write loop of a flushing client
  pulls a buffer from the global queue, the buffer at \<open>bufpos\<close> is appended to the
  sending queue, \<open>bufpos\<close> goes down by one and so does a \<open>flushcount\<close> other than \<open>-1\<close>.
  Third, when a flushing client with \<open>flushcount = 0\<close> and an empty sending queue is
  served as writable, its status becomes Removed and it is removed: it leaves the list
  and \<open>client-removed\<close> with status Removed and \<open>client-fd-removed\<close> are emitted.
\<close>

theorem remove_flush_then_drain:
  "(distinct (map fd (clients sink)) \<and> k < length (clients sink) \<and>
    status (clients sink ! k) = GST_CLIENT_STATUS_OK \<longrightarrow>
      remove_flush sink (fd (clients sink ! k)) =
        set_client sink k ((clients sink ! k)
          \<lparr> flushcount := bufpos (clients sink ! k) + 1,
            status := GST_CLIENT_STATUS_FLUSHING \<rparr>)) \<and>
   (pick_buffer s c True = PICK_CONTINUE s' c' \<and> flushcount c \<noteq> - 1 \<longrightarrow>
      flushcount c' = flushcount c - 1 \<and> bufpos c' = bufpos c - 1 \<and>
      sending c' \<noteq> [] \<and> last (sending c') = bufqueue s ! nat (bufpos c)) \<and>
   (j < length (clients t) \<and> status (clients t ! j) = GST_CLIENT_STATUS_FLUSHING \<and>
    flushcount (clients t ! j) = 0 \<and> sending (clients t ! j) = [] \<and>
    \<not> currently_removing (clients t ! j) \<longrightarrow>
      (\<exists>t'. service_client t j (False, False, False, True) ioc reads ws now = Some (Inr t') \<and>
            clients t' = take j (clients t) @ drop (Suc j) (clients t) \<and>
            signals t' = signals t @
              [SIGNAL_CLIENT_REMOVED (fd (clients t ! j)) GST_CLIENT_STATUS_REMOVED,
               SIGNAL_CLIENT_FD_REMOVED (fd (clients t ! j))]))"
  using remove_flush_ok [of sink k]
    pick_buffer_flushing_decrements [of s c s' c']
    service_client_flushed [of j t ioc reads ws now]
  by blast

theorem remove_flush_then_drain_witness:
  "distinct (map fd (clients ok_sink)) \<and> 0 < length (clients ok_sink) \<and>
   status (clients ok_sink ! 0) = GST_CLIENT_STATUS_OK \<and>
   fd (clients ok_sink ! 0) = 7 \<and> bufpos (clients ok_sink ! 0) = 0 \<and>
   remove_flush ok_sink 7 = ok_sink\<lparr>clients := [ok_flushing_client]\<rparr> \<and>
   pick_buffer (ok_sink\<lparr>clients := [ok_flushing_client]\<rparr>) ok_flushing_client True =
     PICK_CONTINUE (ok_sink\<lparr>clients := [ok_flushing_client]\<rparr>)
       (ok_flushing_client\<lparr>bufpos := - 1, flushcount := 0, sending := [delta_buf 1 10]\<rparr>) \<and>
   flushcount ok_flushing_client = 1 \<and>
   (\<exists>t'. service_client
            (ok_sink\<lparr>clients := [ok_flushing_client\<lparr>bufpos := - 1, flushcount := 0\<rparr>]\<rparr>) 0
            (False, False, False, True) IOCTL_FAILED [] [] 0 = Some (Inr t') \<and>
         clients t' = [] \<and>
         signals t' = [SIGNAL_CLIENT_REMOVED 7 GST_CLIENT_STATUS_REMOVED,
                       SIGNAL_CLIENT_FD_REMOVED 7])"
proof -
  let ?s = "ok_sink\<lparr>clients := [ok_flushing_client]\<rparr>"
  let ?c' = "ok_flushing_client\<lparr>bufpos := - 1, flushcount := 0, sending := [delta_buf 1 10]\<rparr>"
  let ?t = "ok_sink\<lparr>clients := [ok_flushing_client\<lparr>bufpos := - 1, flushcount := 0\<rparr>]\<rparr>"
  have a: "distinct (map fd (clients ok_sink))" "0 < length (clients ok_sink)"
    "status (clients ok_sink ! 0) = GST_CLIENT_STATUS_OK"
    "fd (clients ok_sink ! 0) = 7" "bufpos (clients ok_sink ! 0) = 0"
    by (simp_all add: ok_sink_def ok_client_def fresh_client_def
          gst_multi_handle_sink_client_init_def)
  have b: "pick_buffer ?s ok_flushing_client True = PICK_CONTINUE ?s ?c'"
    "flushcount ok_flushing_client \<noteq> - 1" "flushcount ok_flushing_client = 1"
    by (simp_all add: pick_buffer_def choose_start_def client_queue_buffer_def Let_def
          ok_sink_def ok_flushing_client_def ok_client_def fresh_client_def started_sink_def
          gst_multi_handle_sink_client_init_def delta_buf_def GST_CLOCK_TIME_NONE_def)
  have c: "0 < length (clients ?t)" "status (clients ?t ! 0) = GST_CLIENT_STATUS_FLUSHING"
    "flushcount (clients ?t ! 0) = 0" "sending (clients ?t ! 0) = []"
    "\<not> currently_removing (clients ?t ! 0)" "fd (clients ?t ! 0) = 7" "signals ?t = []"
    "clients ?t = [ok_flushing_client\<lparr>bufpos := - 1, flushcount := 0\<rparr>]"
    by (simp_all add: ok_sink_def ok_flushing_client_def ok_client_def fresh_client_def
          started_sink_def gst_multi_handle_sink_client_init_def)
  have d: "set_client ok_sink 0 ((clients ok_sink ! 0)
             \<lparr> flushcount := bufpos (clients ok_sink ! 0) + 1,
               status := GST_CLIENT_STATUS_FLUSHING \<rparr>) = ?s"
    by (simp add: set_client_def ok_sink_def ok_flushing_client_def ok_client_def)
  from remove_flush_then_drain [of ok_sink 0 ?s ok_flushing_client ?s ?c' 0 ?t
         IOCTL_FAILED "[]" "[]" 0] a b c d
  show ?thesis by simp
qed

text \<open>
  The three steps put together, for a client that has its stream headers, whose position
  lies in the queue and whose writes all complete: one service of the client after
  \<open>remove_flush\<close> sends the \<open>bufpos + 1\<close> buffers left and removes it with status
  Removed. This is the spec's scenario of \<open>remove_flush\<close> at \<open>bufpos = 2\<close>, for any
  position.
\<close>

lemma flush_iteration:
  assumes "sending c = []" and "flushcount c \<noteq> 0" and "flushcount c \<noteq> - 1"
    and "0 \<le> bufpos c" and "bufpos c < int (length (bufqueue s))"
    and "caps c = Some (pad_caps s)"
    and "0 \<le> wrote"
    and "to_gint (int (buf_size (bufqueue s ! nat (bufpos c)))) \<le> wrote"
  shows "\<exists>s2 c2. handle_client_write_loop s c now True ((wrote, e) # ws) =
                   handle_client_write_loop s2 c2 now True ws \<and>
           sending c2 = [] \<and> flushcount c2 = flushcount c - 1 \<and> bufpos c2 = bufpos c - 1 \<and>
           caps c2 = caps c \<and> status c2 = status c \<and> fd c2 = fd c \<and>
           currently_removing c2 = currently_removing c \<and>
           bufqueue s2 = bufqueue s \<and> pad_caps s2 = pad_caps s \<and> clients s2 = clients s \<and>
           signals s2 = signals s \<and> fdset s2 = fdset s"
proof -
  from assms(2-5) obtain c1 where
    pick: "pick_buffer s c True = PICK_CONTINUE s c1"
    and c1: "sending c1 = [bufqueue s ! nat (bufpos c)]" "bufoffset c1 = 0"
      "flushcount c1 = flushcount c - 1" "bufpos c1 = bufpos c - 1" "caps c1 = caps c"
      "status c1 = status c" "fd c1 = fd c" "currently_removing c1 = currently_removing c"
    using assms(1,6)
    by (auto simp: pick_buffer_def choose_start_def client_queue_buffer_def Let_def)
  let ?c2 = "c1\<lparr> sending := [], bufoffset := 0,
                  bytes_sent := bytes_sent c1 + word_of_int wrote, last_activity_time := now \<rparr>"
  let ?s2 = "s\<lparr>bytes_served := bytes_served s + word_of_int wrote\<rparr>"
  from assms(1,7,8) pick c1 have
    "handle_client_write_loop s c now True ((wrote, e) # ws) =
       handle_client_write_loop ?s2 ?c2 now True ws"
    by (subst handle_client_write_loop.simps) (simp add: Let_def)
  with c1 show ?thesis
    by (intro exI [of _ ?s2] exI [of _ ?c2]) simp
qed

lemma flush_run:
  assumes "sending c = []" and "flushcount c = int n" and "int n \<le> bufpos c + 1"
    and "bufpos c < int (length (bufqueue s))" and "caps c = Some (pad_caps s)"
    and "n \<le> length ws" and "complete_writes (bufqueue s) ws"
  shows "\<exists>s' c'. handle_client_write_loop s c now True ws = Some (Inr (False, s', c')) \<and>
           status c' = GST_CLIENT_STATUS_REMOVED \<and> flushcount c' = 0 \<and>
           bufpos c' = bufpos c - int n \<and> sending c' = [] \<and> fd c' = fd c \<and>
           currently_removing c' = currently_removing c \<and>
           clients s' = clients s \<and> signals s' = signals s \<and> bufqueue s' = bufqueue s"
  using assms
proof (induction n arbitrary: s c ws)
  case 0
  then show ?case
    by (subst handle_client_write_loop.simps)
       (auto simp: pick_buffer_def choose_start_def)
next
  case (Suc n)
  from Suc.prems(6) obtain wrote e ws' where ws: "ws = (wrote, e) # ws'" and len: "n \<le> length ws'"
    by (cases ws) auto
  from Suc.prems(2,3) have pos: "0 \<le> bufpos c" and fc: "flushcount c \<noteq> 0" "flushcount c \<noteq> - 1"
    by auto
  from pos Suc.prems(4) have mem: "bufqueue s ! nat (bufpos c) \<in> set (bufqueue s)"
    by (intro nth_mem) auto
  from Suc.prems(7) ws mem have w: "0 \<le> wrote"
    "to_gint (int (buf_size (bufqueue s ! nat (bufpos c)))) \<le> wrote"
    and rest: "complete_writes (bufqueue s) ws'"
    by (auto simp: complete_writes_def list_all_iff)
  from flush_iteration [OF Suc.prems(1) fc pos Suc.prems(4,5) w, of now e ws'] obtain s2 c2 where
    step: "handle_client_write_loop s c now True ((wrote, e) # ws') =
             handle_client_write_loop s2 c2 now True ws'"
    and c2: "sending c2 = []" "flushcount c2 = flushcount c - 1" "bufpos c2 = bufpos c - 1"
      "caps c2 = caps c" "fd c2 = fd c" "currently_removing c2 = currently_removing c"
    and s2: "bufqueue s2 = bufqueue s" "pad_caps s2 = pad_caps s" "clients s2 = clients s"
      "signals s2 = signals s"
    by blast
  have "\<exists>s' c'. handle_client_write_loop s2 c2 now True ws' = Some (Inr (False, s', c')) \<and>
           status c' = GST_CLIENT_STATUS_REMOVED \<and> flushcount c' = 0 \<and>
           bufpos c' = bufpos c2 - int n \<and> sending c' = [] \<and> fd c' = fd c2 \<and>
           currently_removing c' = currently_removing c2 \<and>
           clients s' = clients s2 \<and> signals s' = signals s2 \<and> bufqueue s' = bufqueue s2"
    using Suc.prems c2 s2 len rest by (intro Suc.IH) auto
  with step ws c2 s2 show ?case by auto
qed

lemma flush_after_remove_flush:
  assumes "distinct (map fd (clients sink))" and "k < length (clients sink)"
    and "status (clients sink ! k) = GST_CLIENT_STATUS_OK"
    and "sending (clients sink ! k) = []" and "\<not> currently_removing (clients sink ! k)"
    and "caps (clients sink ! k) = Some (pad_caps sink)"
    and "- 1 \<le> bufpos (clients sink ! k)"
    and "bufpos (clients sink ! k) < int (length (bufqueue sink))"
    and "nat (bufpos (clients sink ! k) + 1) \<le> length ws"
    and "complete_writes (bufqueue sink) ws"
  shows "\<exists>sink'. service_client (remove_flush sink (fd (clients sink ! k))) k
                   (False, False, False, True) ioc reads ws now = Some (Inr sink') \<and>
           clients sink' = take k (clients sink) @ drop (Suc k) (clients sink) \<and>
           signals sink' = signals sink @
             [SIGNAL_CLIENT_REMOVED (fd (clients sink ! k)) GST_CLIENT_STATUS_REMOVED,
              SIGNAL_CLIENT_FD_REMOVED (fd (clients sink ! k))] \<and>
           bufqueue sink' = bufqueue sink"
proof -
  let ?c = "clients sink ! k"
  let ?fc = "?c\<lparr>flushcount := bufpos ?c + 1, status := GST_CLIENT_STATUS_FLUSHING\<rparr>"
  let ?s = "set_client sink k ?fc"
  have rf: "remove_flush sink (fd ?c) = ?s"
    using assms(1-3) by (rule remove_flush_ok)
  have "\<exists>s' c'. handle_client_write_loop ?s ?fc now True ws = Some (Inr (False, s', c')) \<and>
           status c' = GST_CLIENT_STATUS_REMOVED \<and> flushcount c' = 0 \<and>
           bufpos c' = bufpos ?fc - int (nat (bufpos ?c + 1)) \<and> sending c' = [] \<and>
           fd c' = fd ?fc \<and> currently_removing c' = currently_removing ?fc \<and>
           clients s' = clients ?s \<and> signals s' = signals ?s \<and>
           bufqueue s' = bufqueue ?s"
    using assms(4-10) by (intro flush_run) (auto simp: set_client_def)
  then obtain s' c' where
    run: "handle_client_write ?s ?fc now ws = Some (Inr (False, s', c'))"
    and c': "status c' = GST_CLIENT_STATUS_REMOVED" "fd c' = fd ?c"
      "currently_removing c' = currently_removing ?c"
    and s': "clients s' = clients ?s" "signals s' = signals sink" "bufqueue s' = bufqueue sink"
    by (auto simp: handle_client_write_def set_client_def)
  let ?r = "remove_client_link (set_client s' k c') k"
  from assms(2) have at: "clients ?s ! k = ?fc" by (simp add: set_client_def)
  have same: "set_client ?s k ?fc = ?s" by (simp add: set_client_def)
  from assms(2) at same run have
    "service_client ?s k (False, False, False, True) ioc reads ws now = Some (Inr ?r)"
    by (simp add: service_client_def)
  moreover from assms(2,5) c' s' have
    "clients ?r = take k (clients sink) @ drop (Suc k) (clients sink)"
    "signals ?r = signals sink @
       [SIGNAL_CLIENT_REMOVED (fd ?c) GST_CLIENT_STATUS_REMOVED, SIGNAL_CLIENT_FD_REMOVED (fd ?c)]"
    "bufqueue ?r = bufqueue sink"
    by (simp_all add: remove_client_link_def set_client_def)
  ultimately show ?thesis using rf by simp
qed

section \<open>\<open>find_limits\<close>: when the result is \<open>TRUE\<close>\<close>

lemma run_bytes_snoc: "run_bytes (pre @ [b]) = to_gint (run_bytes pre + int (buf_size b))"
  by (simp add: run_bytes_def)

lemma first_ts_none: "(first_ts bs = - 1) = (filter (\<lambda>t. t \<noteq> - 1) (map buf_timestamp bs) = [])"
proof (cases "filter (\<lambda>t. t \<noteq> - 1) (map buf_timestamp bs)")
  case Nil
  then show ?thesis by (simp add: first_ts_def)
next
  case (Cons t ts)
  then have "t \<in> set (filter (\<lambda>t. t \<noteq> - 1) (map buf_timestamp bs))" by simp
  then have "t \<noteq> - 1" by simp
  with Cons show ?thesis by (simp add: first_ts_def)
qed

lemma first_ts_snoc:
  "first_ts (pre @ [b]) =
     (if buf_timestamp b \<noteq> - 1 \<and> first_ts pre = - 1 then buf_timestamp b else first_ts pre)"
proof (cases "filter (\<lambda>t. t \<noteq> - 1) (map buf_timestamp pre)")
  case Nil
  then have "first_ts pre = - 1" by (simp add: first_ts_none)
  with Nil show ?thesis by (simp add: first_ts_def)
next
  case (Cons t ts)
  then have "first_ts pre \<noteq> - 1" by (simp add: first_ts_none)
  with Cons show ?thesis by (simp add: first_ts_def)
qed

lemma bytes_reached_at_end:
  "bytes_reached (pre @ b # rest) lim (length pre) = (lim \<le> run_bytes (pre @ [b]))"
  by (simp add: bytes_reached_def)

lemma time_reached_at_end:
  "time_reached (pre @ b # rest) lim (length pre) =
     (buf_timestamp b \<noteq> - 1 \<and> lim \<le> first_ts (pre @ [b]) - buf_timestamp b)"
  by (simp add: time_reached_def)

lemma list_ex_upt_Suc: "list_ex P [0..<Suc n] = (list_ex P [0..<n] \<or> P n)"
  by (auto simp: list_ex_iff less_Suc_eq)


text \<open>The loop, started anywhere in the queue with the state the buffers before have
  left: it returns \<open>TRUE\<close> exactly if the first index at which a maximum is reached comes
  at or after the last buffer seen, is not the last index of the queue, and the minimums
  are reached by then.\<close>

lemma find_limits_loop_result:
  assumes "q = pre @ bs"
    and "i = int (length pre)" and "bytes = run_bytes pre" and "first = first_ts pre"
    and "(bmn = - 1) = (bytes_mn = - 1 \<or> list_ex (bytes_reached q bytes_mn) [0..<length pre])"
    and "bmn \<noteq> - 1 \<longrightarrow> bmn = bytes_mn"
    and "(tmn = - 1) = (time_mn = - 1 \<or> list_ex (time_reached q time_mn) [0..<length pre])"
    and "tmn \<noteq> - 1 \<longrightarrow> tmn = time_mn"
    and "mn \<noteq> - 1 \<longrightarrow> bmn = - 1 \<and> tmn = - 1"
    and "hit = (pre \<noteq> [] \<and> max_reached q bmx tmx (length pre - 1))"
    and "\<not> list_ex (max_reached q bmx tmx) [0..<length pre - 1]"
    and "find_limits_loop bs i bytes first bmn tmn bmx tmx mn hit = (mn', mx', r)"
  shows "r = (\<exists>j. length pre \<le> Suc j \<and> Suc j < length q \<and>
                 first_max_reached q bmx tmx j \<and> mins_reached q bytes_mn time_mn j)"
  using assms
proof (induction bs arbitrary: pre i bytes first bmn tmn mn hit)
  case Nil
  then show ?case by auto
next
  case (Cons b rest)
  note q = \<open>q = pre @ b # rest\<close>
  let ?n = "length pre"
  let ?mn1 = "if bmn = - 1 \<and> tmn = - 1 \<and> mn = - 1 then max (i - 1) 0 else mn"
  have mn1: "(?mn1 \<noteq> - 1) = (bmn = - 1 \<and> tmn = - 1)"
    using Cons.prems(2,9) by auto
  show ?case
  proof (cases hit)
    case True
    with Cons.prems(10) have pre: "pre \<noteq> []" and mr: "max_reached q bmx tmx (?n - 1)"
      by auto
    from pre have suc: "Suc (?n - 1) = ?n" by (cases pre) auto
    from True Cons.prems(12) have "r = (?mn1 \<noteq> - 1)" by (auto simp: Let_def)
    with mn1 have r: "r = (bmn = - 1 \<and> tmn = - 1)" by simp
    have mins: "mins_reached q bytes_mn time_mn (?n - 1) = (bmn = - 1 \<and> tmn = - 1)"
      using Cons.prems(5,7) suc by (simp add: mins_reached_def)
    have fm: "first_max_reached q bmx tmx (?n - 1)"
      using mr Cons.prems(11) by (simp add: first_max_reached_def)
    show ?thesis
    proof
      assume r
      with r mins have "mins_reached q bytes_mn time_mn (?n - 1)" by simp
      moreover from q suc have "?n \<le> Suc (?n - 1)" and "Suc (?n - 1) < length q" by simp_all
      ultimately show "\<exists>j. ?n \<le> Suc j \<and> Suc j < length q \<and>
                 first_max_reached q bmx tmx j \<and> mins_reached q bytes_mn time_mn j"
        using fm by blast
    next
      assume "\<exists>j. ?n \<le> Suc j \<and> Suc j < length q \<and>
                 first_max_reached q bmx tmx j \<and> mins_reached q bytes_mn time_mn j"
      then obtain j where j: "?n \<le> Suc j" "first_max_reached q bmx tmx j"
        "mins_reached q bytes_mn time_mn j" by blast
      have "j = ?n - 1"
      proof (rule ccontr)
        assume "j \<noteq> ?n - 1"
        with j(1) have "?n - 1 < j" by simp
        with mr have "list_ex (max_reached q bmx tmx) [0..<j]" by (auto simp: list_ex_iff)
        with j(2) show False by (simp add: first_max_reached_def)
      qed
      with j(3) mins r show r by simp
    qed
  next
    case False
    let ?bytes' = "to_gint (bytes + int (buf_size b))"
    let ?time = "buf_timestamp b"
    let ?first' = "if ?time \<noteq> - 1 \<and> first = - 1 then ?time else first"
    let ?tmn' = "if ?time \<noteq> - 1 \<and> tmn \<noteq> - 1 \<and> ?first' - ?time \<ge> tmn then - 1 else tmn"
    let ?hit_t = "?time \<noteq> - 1 \<and> tmx \<noteq> - 1 \<and> ?first' - ?time \<ge> tmx"
    let ?bmn' = "if bmn \<noteq> - 1 \<and> ?bytes' \<ge> bmn then - 1 else bmn"
    let ?hit_b = "bmx \<noteq> - 1 \<and> ?bytes' \<ge> bmx"
    from False Cons.prems(12) have loop:
      "find_limits_loop rest (i + 1) ?bytes' ?first' ?bmn' ?tmn' bmx tmx ?mn1 (?hit_t \<or> ?hit_b)
         = (mn', mx', r)"
      by (simp add: Let_def)
    have bytes': "?bytes' = run_bytes (pre @ [b])"
      using Cons.prems(3) by (simp add: run_bytes_snoc)
    have first': "?first' = first_ts (pre @ [b])"
      using Cons.prems(4) by (simp add: first_ts_snoc)
    have br: "bytes_reached q lim ?n = (lim \<le> ?bytes')" for lim
      using q bytes' by (simp add: bytes_reached_at_end)
    have tr: "time_reached q lim ?n = (?time \<noteq> - 1 \<and> lim \<le> ?first' - ?time)" for lim
      using q first' by (simp only: time_reached_at_end)
    have a1: "q = (pre @ [b]) @ rest" using q by simp
    have a2: "i + 1 = int (length (pre @ [b]))" using Cons.prems(2) by simp
    have a5: "(?bmn' = - 1) =
        (bytes_mn = - 1 \<or> list_ex (bytes_reached q bytes_mn) [0..<length (pre @ [b])])"
      using Cons.prems(5,6) br [of bytes_mn] by (auto simp: list_ex_upt_Suc)
    have a6: "?bmn' \<noteq> - 1 \<longrightarrow> ?bmn' = bytes_mn" using Cons.prems(6) by auto
    have a7: "(?tmn' = - 1) =
        (time_mn = - 1 \<or> list_ex (time_reached q time_mn) [0..<length (pre @ [b])])"
      using Cons.prems(7,8) tr [of time_mn] by (auto simp: list_ex_upt_Suc)
    have a8: "?tmn' \<noteq> - 1 \<longrightarrow> ?tmn' = time_mn" using Cons.prems(8) by auto
    have a9: "?mn1 \<noteq> - 1 \<longrightarrow> ?bmn' = - 1 \<and> ?tmn' = - 1"
      using Cons.prems(9) by auto
    have a10: "(?hit_t \<or> ?hit_b) =
        (pre @ [b] \<noteq> [] \<and> max_reached q bmx tmx (length (pre @ [b]) - 1))"
      using br [of bmx] tr [of tmx] by (auto simp: max_reached_def)
    have a11: "\<not> list_ex (max_reached q bmx tmx) [0..<length (pre @ [b]) - 1]"
    proof (cases pre)
      case Nil
      then show ?thesis by simp
    next
      case (Cons p ps)
      then have "?n = Suc (?n - 1)" by simp
      then have "list_ex (max_reached q bmx tmx) [0..<?n] =
          (list_ex (max_reached q bmx tmx) [0..<?n - 1] \<or> max_reached q bmx tmx (?n - 1))"
        using list_ex_upt_Suc [of "max_reached q bmx tmx" "?n - 1"] by simp
      with False Cons.prems(10,11) Cons show ?thesis by simp
    qed
    from Cons.IH [OF a1 a2 bytes' first' a5 a6 a7 a8 a9 a10 a11 loop]
    have ih: "r = (\<exists>j. length (pre @ [b]) \<le> Suc j \<and> Suc j < length q \<and>
                 first_max_reached q bmx tmx j \<and> mins_reached q bytes_mn time_mn j)" .
    show ?thesis
    proof
      assume r
      with ih obtain j where "length (pre @ [b]) \<le> Suc j" "Suc j < length q"
        "first_max_reached q bmx tmx j" "mins_reached q bytes_mn time_mn j" by blast
      then show "\<exists>j. ?n \<le> Suc j \<and> Suc j < length q \<and>
                 first_max_reached q bmx tmx j \<and> mins_reached q bytes_mn time_mn j"
        by (intro exI [of _ j]) simp
    next
      assume "\<exists>j. ?n \<le> Suc j \<and> Suc j < length q \<and>
                 first_max_reached q bmx tmx j \<and> mins_reached q bytes_mn time_mn j"
      then obtain j where j: "?n \<le> Suc j" "Suc j < length q"
        "first_max_reached q bmx tmx j" "mins_reached q bytes_mn time_mn j" by blast
      have "Suc j \<noteq> ?n"
      proof
        assume "Suc j = ?n"
        then have "pre \<noteq> []" and "j = ?n - 1" by auto
        with j(3) have "hit" using Cons.prems(10) by (simp add: first_max_reached_def)
        with False show False by simp
      qed
      with j(1) have "length (pre @ [b]) \<le> Suc j" by simp
      with j ih show r by blast
    qed
  qed
qed

lemma find_limits_satisfied_iff:
  assumes "q \<noteq> []" and "buffers_mn = - 1 \<or> buffers_mn \<le> int (length q)"
  shows "(\<exists>mn mx. find_limits q bytes_mn buffers_mn time_mn bytes_mx buffers_mx time_mx = Inr (mn, mx, True))
         = (\<exists>j. Suc j < length q \<and> first_max_reached q bytes_mx time_mx j \<and>
                 mins_reached q bytes_mn time_mn j)"
proof -
  obtain a c r where loop:
    "find_limits_loop q 0 0 (- 1) bytes_mn time_mn bytes_mx time_mx (- 1) False = (a, c, r)"
    by (metis prod_cases3)
  have "r = (\<exists>j. length ([] :: GstBuffer list) \<le> Suc j \<and> Suc j < length q \<and>
                 first_max_reached q bytes_mx time_mx j \<and> mins_reached q bytes_mn time_mn j)"
    by (rule find_limits_loop_result [OF _ _ _ _ _ _ _ _ _ _ _ loop])
       (simp_all add: run_bytes_def first_ts_def)
  moreover from assms(2) have "buffers_mn = - 1 \<or> \<not> int (length q) < buffers_mn" by auto
  from find_limits_unfold [OF assms(1) this loop, of buffers_mx]
  have "(\<exists>mn mx. find_limits q bytes_mn buffers_mn time_mn bytes_mx buffers_mx time_mx
                    = Inr (mn, mx, True)) = r"
    by simp
  ultimately show ?thesis by simp
qed

lemma find_limits_buffers_min_unmet:
  assumes "buffers_mn \<noteq> - 1" and "int (length q) < buffers_mn"
  shows "find_limits q bytes_mn buffers_mn time_mn bytes_mx buffers_mx time_mx \<noteq> Inr (mn, mx, True)"
  using assms by (simp add: find_limits_def Let_def)

text \<open>
  Claim C2, as stated, fails, at two inputs that \<open>add_full\<close> accepts as burst limits.
  First, a burst of at least one and at most two buffers on a queue of five: every
  minimum that is set is met and the buffers maximum is exceeded, but \<open>find_limits\<close>,
  which never looks at \<open>buffers_max\<close>, returns \<open>FALSE\<close>. Second, a burst of at least 25
  bytes and at most 5 time units on three buffers of 10 bytes, stamped 100, 90 and 80: the
  queue holds the 25 bytes and spans more than 5, but the time maximum is reached at
  index 1, where only 20 bytes have been counted, and the result is \<open>FALSE\<close>.
\<close>

theorem find_limits_satisfied_counterexample:
  "all_mins_met five_small (- 1) 1 (- 1) \<and> some_max_exceeded five_small (- 1) 2 (- 1) \<and>
   count_burst_unit five_small GST_TCP_UNIT_TYPE_BUFFERS 1 GST_TCP_UNIT_TYPE_BUFFERS 2
     = find_limits five_small (- 1) 1 (- 1) (- 1) 2 (- 1) \<and>
   find_limits five_small (- 1) 1 (- 1) (- 1) 2 (- 1) = Inr (0, 4, False) \<and>
   all_mins_met three_stamped 25 (- 1) (- 1) \<and> some_max_exceeded three_stamped (- 1) (- 1) 5 \<and>
   count_burst_unit three_stamped GST_TCP_UNIT_TYPE_BYTES 25 GST_TCP_UNIT_TYPE_TIME 5
     = find_limits three_stamped 25 (- 1) (- 1) (- 1) (- 1) 5 \<and>
   find_limits three_stamped 25 (- 1) (- 1) (- 1) (- 1) 5 = Inr (1, 1, False)"
  by (simp add: all_mins_met_def some_max_exceeded_def five_small_def three_stamped_def
        count_burst_unit_def assign_value_def find_limits_def to_gint_def Let_def delta_buf_def
        GST_CLOCK_TIME_NONE_def run_bytes_def first_ts_def time_reached_def upt_rec)

text \<open>
  Claim C2, amended. On a non-empty queue: if \<open>find_limits\<close> returns \<open>TRUE\<close>, then the
  buffers minimum, when set, is at most the length of the queue, and there is an index
  at which a bytes or time maximum is reached for the first time and by which every
  bytes or time minimum that is set has been reached. Conversely, if the buffers minimum
  is unset or at most the length, and a bytes or time maximum is reached for the first
  time at an index that is not the last of the queue, with every bytes or time minimum
  that is set reached by that index, then \<open>find_limits\<close> returns \<open>TRUE\<close>. Nothing is said
  here of a maximum first reached at the last index.
\<close>

theorem find_limits_satisfied:
  assumes "q \<noteq> []"
  shows "((\<exists>mn mx. find_limits q bytes_mn buffers_mn time_mn bytes_mx buffers_mx time_mx
                     = Inr (mn, mx, True)) \<longrightarrow>
            (buffers_mn = - 1 \<or> buffers_mn \<le> int (length q)) \<and>
            (\<exists>j < length q. first_max_reached q bytes_mx time_mx j \<and>
                             mins_reached q bytes_mn time_mn j)) \<and>
         ((buffers_mn = - 1 \<or> buffers_mn \<le> int (length q)) \<and> Suc j < length q \<and>
          first_max_reached q bytes_mx time_mx j \<and> mins_reached q bytes_mn time_mn j \<longrightarrow>
            (\<exists>mn mx. find_limits q bytes_mn buffers_mn time_mn bytes_mx buffers_mx time_mx
                      = Inr (mn, mx, True)))"
proof (intro conjI impI)
  assume sat: "\<exists>mn mx. find_limits q bytes_mn buffers_mn time_mn bytes_mx buffers_mx time_mx
                     = Inr (mn, mx, True)"
  show bm: "buffers_mn = - 1 \<or> buffers_mn \<le> int (length q)"
  proof (rule ccontr)
    assume "\<not> (buffers_mn = - 1 \<or> buffers_mn \<le> int (length q))"
    then have "buffers_mn \<noteq> - 1" and "int (length q) < buffers_mn" by auto
    from find_limits_buffers_min_unmet [OF this] sat show False by blast
  qed
  from sat find_limits_satisfied_iff [OF assms bm, of bytes_mn time_mn bytes_mx buffers_mx time_mx]
  obtain j where "Suc j < length q" "first_max_reached q bytes_mx time_mx j"
    "mins_reached q bytes_mn time_mn j" by blast
  then show "\<exists>j < length q. first_max_reached q bytes_mx time_mx j \<and>
                             mins_reached q bytes_mn time_mn j"
    by (intro exI [of _ j]) simp
next
  assume "(buffers_mn = - 1 \<or> buffers_mn \<le> int (length q)) \<and> Suc j < length q \<and>
          first_max_reached q bytes_mx time_mx j \<and> mins_reached q bytes_mn time_mn j"
  with find_limits_satisfied_iff [OF assms, of buffers_mn bytes_mn time_mn bytes_mx buffers_mx time_mx]
  show "\<exists>mn mx. find_limits q bytes_mn buffers_mn time_mn bytes_mx buffers_mx time_mx
                      = Inr (mn, mx, True)"
    by blast
qed

theorem find_limits_satisfied_witness:
  "four_bufs \<noteq> [] \<and>
   find_limits four_bufs 1000 (- 1) (- 1) 1500 (- 1) (- 1) = Inr (1, 2, True) \<and>
   Suc 2 < length four_bufs \<and> first_max_reached four_bufs 1500 (- 1) 2 \<and>
   mins_reached four_bufs 1000 (- 1) 2"
proof -
  have a: "four_bufs \<noteq> []" by (simp add: four_bufs_def)
  have b: "find_limits four_bufs 1000 (- 1) (- 1) 1500 (- 1) (- 1) = Inr (1, 2, True)"
    by (simp add: four_bufs_def find_limits_def to_gint_def Let_def delta_buf_def)
  have c: "Suc 2 < length four_bufs" by (simp add: four_bufs_def)
  have d: "first_max_reached four_bufs 1500 (- 1) 2"
    by (simp add: first_max_reached_def max_reached_def bytes_reached_def run_bytes_def
          four_bufs_def delta_buf_def to_gint_def upt_rec)
  have e: "mins_reached four_bufs 1000 (- 1) 2"
    by (simp add: mins_reached_def bytes_reached_def run_bytes_def
          four_bufs_def delta_buf_def to_gint_def upt_rec)
  from find_limits_satisfied [OF a, of 1000 "- 1" "- 1" 1500 "- 1" "- 1" 2] a b c d e
  show ?thesis by simp
qed

text \<open>On a maximum first reached at the last index of the queue, the case the theorem
  leaves out: the loop ends before the turn that would look at \<open>max_hit\<close>, and the result
  is \<open>FALSE\<close>.\<close>

lemma find_limits_max_at_last_index:
  "find_limits [delta_buf 1 10] (- 1) (- 1) (- 1) 5 (- 1) (- 1) = Inr (0, 0, False)"
  by (simp add: find_limits_def to_gint_def Let_def delta_buf_def)

section \<open>The position of a client after a write\<close>

text \<open>
  The part of claim C5 that is about the I/O loop holds. Whenever
  \<open>handle_client_write\<close> returns, for a client that is flushing or has no flush count
  (those are all the clients there are: only \<open>remove_flush\<close> sets a flush count, and it
  sets the status Flushing with it), a position that was \<open>-1\<close> or in the queue is so
  again, and the queue is untouched.
\<close>

lemma new_client_effect:
  assumes "new_client q c = Inr (pos, c')"
  shows "flushcount c' = flushcount c \<and> (bufpos c' = bufpos c \<or> bufpos c' = - 1)"
  using assms
  by (cases "sync_method c")
     (auto simp: new_client_def Let_def split: if_splits sum.splits prod.splits)

lemma pick_buffer_return_keeps_bufpos:
  assumes "pick_buffer s c flushing = PICK_RETURN ok s' c'"
    and "bufpos_in_queue (bufqueue s) c" and "flushing \<or> flushcount c = - 1"
  shows "bufpos_in_queue (bufqueue s') c' \<and> bufqueue s' = bufqueue s"
proof (cases "bufpos c = - 1")
  case True
  with assms(1) show ?thesis
    by (auto simp: pick_buffer_def Let_def bufpos_in_queue_def split: if_splits)
next
  case False
  show ?thesis
  proof (cases "new_connection c \<and> \<not> flushing")
    case nc: True
    with assms(3) have fc: "flushcount c = - 1" by simp
    from nc False assms(1) obtain pos c1 where nw: "new_client (bufqueue s) c = Inr (pos, c1)"
      by (auto simp: pick_buffer_def choose_start_def split: sum.splits if_splits)
    from new_client_effect [OF nw] fc
    have c1: "flushcount c1 = - 1" "bufpos c1 = bufpos c \<or> bufpos c1 = - 1" by simp_all
    from nc False assms(1) nw c1(1) have "\<not> 0 \<le> pos" and "c' = c1" and "bufqueue s' = bufqueue s"
      by (auto simp: pick_buffer_def choose_start_def Let_def split: if_splits)
    with c1(2) assms(2) show ?thesis by (auto simp: bufpos_in_queue_def)
  next
    case nc: False
    with False assms(1,2) show ?thesis
      by (auto simp: pick_buffer_def choose_start_def Let_def bufpos_in_queue_def
               split: if_splits)
  qed
qed

lemma pick_buffer_continue_keeps_bufpos:
  assumes "pick_buffer s c flushing = PICK_CONTINUE s' c'"
    and "flushing \<or> flushcount c = - 1"
  shows "bufpos_in_queue (bufqueue s') c' \<and> bufqueue s' = bufqueue s \<and>
         (flushing \<or> flushcount c' = - 1)"
proof (cases "new_connection c \<and> \<not> flushing")
  case nc: True
  with assms(2) have fc: "flushcount c = - 1" by simp
  from nc assms(1) obtain pos c1 where nw: "new_client (bufqueue s) c = Inr (pos, c1)"
    by (auto simp: pick_buffer_def choose_start_def Let_def split: sum.splits if_splits)
  from new_client_effect [OF nw] fc have c1: "flushcount c1 = - 1" by simp
  from nc assms(1) nw c1 show ?thesis
    by (auto simp: pick_buffer_def choose_start_def Let_def bufpos_in_queue_def
          client_queue_buffer_def split: if_splits)
next
  case nc: False
  with assms show ?thesis
    by (auto simp: pick_buffer_def choose_start_def Let_def bufpos_in_queue_def
          client_queue_buffer_def split: if_splits)
qed


lemma handle_client_write_loop_keeps_bufpos:
  assumes "handle_client_write_loop s c now flushing ws = Some (Inr (ok, s', c'))"
    and "bufpos_in_queue (bufqueue s) c" and "flushing \<or> flushcount c = - 1"
  shows "bufpos_in_queue (bufqueue s') c' \<and> bufqueue s' = bufqueue s"
  using assms
proof (induction ws arbitrary: s c)
  case Nil
  show ?case
  proof (cases "sending c = []")
    case True
    with Nil.prems(1) obtain r where "pick_buffer s c flushing = PICK_RETURN r s' c'"
      by (cases "pick_buffer s c flushing")
         (auto split: list.splits)
    from pick_buffer_return_keeps_bufpos [OF this Nil.prems(2,3)] show ?thesis .
  next
    case False
    with Nil.prems(1) show ?thesis by (auto split: list.splits)
  qed
next
  case (Cons w ws)
  obtain wrote err where w: "w = (wrote, err)" by (cases w)
  show ?case
  proof (cases "if sending c = [] then pick_buffer s c flushing else PICK_CONTINUE s c")
    case (PICK_FAILED e)
    with Cons.prems(1) show ?thesis by (subst (asm) handle_client_write_loop.simps) simp
  next
    case (PICK_RETURN r s1 c1)
    with Cons.prems(1) have eq: "s' = s1" "c' = c1"
      by (subst (asm) handle_client_write_loop.simps, simp)+
    from PICK_RETURN have "pick_buffer s c flushing = PICK_RETURN r s1 c1"
      by (auto split: if_splits)
    from pick_buffer_return_keeps_bufpos [OF this Cons.prems(2,3)] eq show ?thesis by auto
  next
    case (PICK_CONTINUE s1 c1)
    have inv1: "bufpos_in_queue (bufqueue s1) c1 \<and> bufqueue s1 = bufqueue s \<and>
                (flushing \<or> flushcount c1 = - 1)"
    proof (cases "sending c = []")
      case True
      with PICK_CONTINUE have "pick_buffer s c flushing = PICK_CONTINUE s1 c1" by simp
      from pick_buffer_continue_keeps_bufpos [OF this Cons.prems(3)] show ?thesis .
    next
      case False
      with PICK_CONTINUE Cons.prems(2,3) show ?thesis by simp
    qed
    show ?thesis
    proof (cases "sending c1")
      case Nil
      with PICK_CONTINUE Cons.prems(1) show ?thesis
        by (subst (asm) handle_client_write_loop.simps) simp
    next
      case (Cons head tail)
      let ?maxsize = "to_gint (int (buf_size head) - bufoffset c1)"
      show ?thesis
      proof (cases "wrote < 0 \<or> wrote < ?maxsize")
        case True
        with PICK_CONTINUE Cons Cons.prems(1) w have
          "bufpos c' = bufpos c1 \<and> bufqueue s' = bufqueue s1"
          by (subst (asm) handle_client_write_loop.simps)
             (auto simp: Let_def simp del: handle_client_write_loop.simps
                   split: if_splits write_errno.splits)
        with inv1 show ?thesis by (auto simp: bufpos_in_queue_def)
      next
        case False
        let ?c2 = "c1\<lparr> sending := tail, bufoffset := 0,
                        bytes_sent := bytes_sent c1 + word_of_int wrote,
                        last_activity_time := now \<rparr>"
        let ?s2 = "s1\<lparr>bytes_served := bytes_served s1 + word_of_int wrote\<rparr>"
        from False PICK_CONTINUE Cons \<open>handle_client_write_loop s c now flushing (w # ws) = _\<close> w
        have "handle_client_write_loop ?s2 ?c2 now flushing ws = Some (Inr (ok, s', c'))"
          by (subst (asm) handle_client_write_loop.simps)
             (simp add: Let_def del: handle_client_write_loop.simps)
        moreover from inv1 have "bufpos_in_queue (bufqueue ?s2) ?c2"
          and "flushing \<or> flushcount ?c2 = - 1"
          by (auto simp: bufpos_in_queue_def)
        ultimately have "bufpos_in_queue (bufqueue s') c' \<and> bufqueue s' = bufqueue ?s2"
          by (rule Cons.IH)
        with inv1 show ?thesis by auto
      qed
    qed
  qed
qed

lemma handle_client_write_keeps_bufpos:
  assumes "handle_client_write s c now ws = Some (Inr (ok, s', c'))"
    and "bufpos_in_queue (bufqueue s) c"
    and "status c = GST_CLIENT_STATUS_FLUSHING \<or> flushcount c = - 1"
  shows "bufpos_in_queue (bufqueue s') c' \<and> bufqueue s' = bufqueue s"
  using assms unfolding handle_client_write_def
  by (rule handle_client_write_loop_keeps_bufpos)

section \<open>The position of a client after \<open>render\<close>, when no client leaves the list\<close>

text \<open>
  The part of claim C5 that is about \<open>render\<close> holds as long as the loop over the clients
  is not started again, that is, as long as no client leaves the list during the call:
  every position that was \<open>-1\<close> or in the queue is so again in the trimmed queue. Recovery
  never moves a client beyond its position, the usage the queue is trimmed to is at least
  every position, and the queue has grown by the one buffer the positions have advanced
  by.
\<close>

lemma keyframe_scan_range:
  "keyframe_scan q p = Inr r \<Longrightarrow> - 1 \<le> p \<Longrightarrow> - 1 \<le> r \<and> r \<le> p"
proof (induction q p rule: keyframe_scan.induct)
  case (1 q p)
  show ?case
  proof (cases "0 \<le> p \<and> p < int (length q) \<and> \<not> is_sync_frame (q ! nat p)")
    case True
    with "1.prems"(1) have "keyframe_scan q (p - 1) = Inr r"
      by (subst (asm) keyframe_scan.simps) simp
    with True "1.IH" have "- 1 \<le> r \<and> r \<le> p - 1" by simp
    then show ?thesis by simp
  next
    case False
    with "1.prems" show ?thesis
      by (subst (asm) keyframe_scan.simps) (auto split: if_splits)
  qed
qed

lemma recover_client_range:
  assumes "recover_client pol u soft q pos = Inr newpos"
    and "q \<noteq> []" and "int (length q) < 2 ^ 31"
    and "0 < get_buffers_max u q soft" and "get_buffers_max u q soft \<le> pos"
    and "pos < int (length q)"
  shows "- 1 \<le> newpos \<and> newpos \<le> pos"
proof (cases pol)
  case GST_RECOVER_POLICY_NONE
  with assms show ?thesis by (simp add: recover_client_def)
next
  case GST_RECOVER_POLICY_RESYNC_LATEST
  with assms show ?thesis by (simp add: recover_client_def)
next
  case GST_RECOVER_POLICY_RESYNC_SOFT_LIMIT
  with assms show ?thesis by (auto simp: recover_client_def)
next
  case GST_RECOVER_POLICY_RESYNC_KEYFRAME
  let ?sm = "get_buffers_max u q soft"
  from assms(2) have len: "1 \<le> int (length q)" by (cases q) auto
  from len assms(3,4) get_buffers_max_upper [OF assms(3), of u soft]
  have m: "MIN_len_softmax (int (length q)) ?sm = min (int (length q) - 1) (?sm - 1)"
    by (intro MIN_len_softmax_in_range) auto
  from GST_RECOVER_POLICY_RESYNC_KEYFRAME assms(1) m
  have "keyframe_scan q (min (int (length q) - 1) (?sm - 1)) = Inr newpos"
    by (simp add: recover_client_def)
  from keyframe_scan_range [OF this] assms(2,4)
  have "- 1 \<le> newpos \<and> newpos \<le> min (int (length q) - 1) (?sm - 1)" by simp
  with assms(5) show ?thesis by simp
qed

lemma recover_position_range:
  assumes "recover_position s smb c = Inr c'"
    and "0 < smb \<longrightarrow> smb = get_buffers_max (unit_type s) (bufqueue s) (units_soft_max s)"
    and "bufqueue s \<noteq> []" and "int (length (bufqueue s)) < 2 ^ 31"
    and "- 1 \<le> bufpos c" and "bufpos c < int (length (bufqueue s))"
  shows "- 1 \<le> bufpos c' \<and> bufpos c' < int (length (bufqueue s)) \<and>
         currently_removing c' = currently_removing c"
proof (cases "0 < smb \<and> smb \<le> bufpos c")
  case True
  with assms(1) obtain newpos where rc:
    "recover_client (recover_policy s) (unit_type s) (units_soft_max s) (bufqueue s) (bufpos c)
       = Inr newpos" and b: "bufpos c' = newpos"
    and cr: "currently_removing c' = currently_removing c"
    by (auto simp: recover_position_def split: sum.splits if_splits)
  from True assms(2) have "0 < get_buffers_max (unit_type s) (bufqueue s) (units_soft_max s)"
    and "get_buffers_max (unit_type s) (bufqueue s) (units_soft_max s) \<le> bufpos c"
    by auto
  from recover_client_range [OF rc assms(3,4) this assms(6)] assms(6) b cr show ?thesis by simp
next
  case False
  with assms(1) have "c' = c" by (auto simp: recover_position_def)
  with assms(5,6) show ?thesis by simp
qed

lemma queue_client_step_no_removal:
  assumes "queue_client_step mb smb now s k usage ns = Inr (s1, k1, u1, n1)"
    and "k < length (clients s)" and "length (clients s1) = length (clients s)"
    and "0 < smb \<longrightarrow> smb = get_buffers_max (unit_type s) (bufqueue s) (units_soft_max s)"
    and "bufqueue s \<noteq> []" and "int (length (bufqueue s)) < 2 ^ 31"
    and "- 1 \<le> bufpos (clients s ! k)"
    and "bufpos (clients s ! k) + 1 < int (length (bufqueue s))"
    and "- 1 \<le> usage"
  shows "k1 = Suc k \<and> usage \<le> u1 \<and>
         (\<exists>c2 fs. s1 = s\<lparr>clients := (clients s)[k := c2], fdset := fs\<rparr> \<and>
                  - 1 \<le> bufpos c2 \<and> bufpos c2 < int (length (bufqueue s)) \<and> bufpos c2 \<le> u1)"
proof -
  let ?c = "clients s ! k"
  let ?c1 = "?c\<lparr>bufpos := bufpos ?c + 1\<rparr>"
  from assms(1) obtain c2 where c2: "recover_position s smb ?c1 = Inr c2"
    by (auto simp: queue_client_step_def Let_def split: sum.splits)
  from assms(7,8) have "- 1 \<le> bufpos ?c1" and "bufpos ?c1 < int (length (bufqueue s))" by simp_all
  from recover_position_range [OF c2 assms(4,5,6) this]
  have range: "- 1 \<le> bufpos c2" "bufpos c2 < int (length (bufqueue s))" by simp_all
  let ?evict = "(0 < mb \<and> mb \<le> bufpos c2) \<or>
                (0 < timeout s \<and> timeout s < now - last_activity_time c2)"
  let ?c3 = "c2\<lparr>status := GST_CLIENT_STATUS_SLOW, bufpos := - 1\<rparr>"
  show ?thesis
  proof (cases ?evict)
    case True
    with assms(1) c2 have s1: "s1 = remove_client_link (set_client s k ?c3) k"
      and k1: "k1 = (if currently_removing ?c3 then Suc k else k)" and u1: "u1 = usage"
      by (auto simp: queue_client_step_def Let_def)
    have cr: "currently_removing ?c3"
    proof (rule ccontr)
      assume "\<not> currently_removing ?c3"
      then have "length (clients s1) < length (clients s)"
        using s1 assms(2) by (simp add: remove_client_link_def set_client_def)
      with assms(3) show False by simp
    qed
    with s1 assms(2) have "s1 = s\<lparr>clients := (clients s)[k := ?c3], fdset := fdset s\<rparr>"
      by (simp add: remove_client_link_def set_client_def)
    moreover from assms(5,9) u1 have "- 1 \<le> bufpos ?c3" "bufpos ?c3 < int (length (bufqueue s))"
      "bufpos ?c3 \<le> u1"
      by simp_all
    ultimately have "\<exists>c2 fs. s1 = s\<lparr>clients := (clients s)[k := c2], fdset := fs\<rparr> \<and>
                  - 1 \<le> bufpos c2 \<and> bufpos c2 < int (length (bufqueue s)) \<and> bufpos c2 \<le> u1"
      by (intro exI [of _ ?c3] exI [of _ "fdset s"]) simp
    with k1 cr u1 show ?thesis by simp
  next
    case False
    let ?wake = "bufpos c2 = 0 \<or> new_connection c2"
    from False assms(1) c2 have
      s1: "s1 = s\<lparr> clients := (clients s)[k := c2],
                    fdset := (if ?wake then gst_poll_fd_ctl_write (fdset s) (fd c2) True else fdset s) \<rparr>"
      and k1: "k1 = Suc k" and u1: "u1 = (if usage < bufpos c2 then bufpos c2 else usage)"
      by (auto simp: queue_client_step_def Let_def set_client_def)
    from s1 range u1 have "\<exists>c2 fs. s1 = s\<lparr>clients := (clients s)[k := c2], fdset := fs\<rparr> \<and>
                  - 1 \<le> bufpos c2 \<and> bufpos c2 < int (length (bufqueue s)) \<and> bufpos c2 \<le> u1"
      by (intro exI [of _ c2] exI [of _ "if ?wake then gst_poll_fd_ctl_write (fdset s) (fd c2) True else fdset s"]) simp
    with k1 u1 show ?thesis by simp
  qed
qed


lemma queue_client_step_length:
  assumes "queue_client_step mb smb now s k usage ns = Inr (s1, k1, u1, n1)"
    and "k < length (clients s)"
  shows "length (clients s1) \<le> length (clients s)"
  using queue_client_step_progress [OF assms] by auto

lemma queue_clients_loop_length:
  "queue_clients_loop mb smb now s cookie k usage ns = Inr (s', u', n') \<Longrightarrow>
   length (clients s') \<le> length (clients s)"
proof (induction mb smb now s cookie k usage ns rule: queue_clients_loop.induct)
  case (1 mb smb now sink cookie k usage ns)
  show ?case
  proof (cases "length (clients sink) \<le> k")
    case True
    with "1.prems" show ?thesis by (subst (asm) queue_clients_loop.simps) simp
  next
    case notend: False
    show ?thesis
    proof (cases "cookie \<noteq> clients_cookie sink")
      case True
      with notend "1.prems" have
        "queue_clients_loop mb smb now sink (clients_cookie sink) 0 usage ns = Inr (s', u', n')"
        by (subst (asm) queue_clients_loop.simps) simp
      with notend True "1.IH"(1) show ?thesis by simp
    next
      case False
      with notend "1.prems" obtain s1 k1 u1 n1 where
        st: "queue_client_step mb smb now sink k usage ns = Inr (s1, k1, u1, n1)"
        and rest: "queue_clients_loop mb smb now s1 cookie k1 u1 n1 = Inr (s', u', n')"
        by (subst (asm) queue_clients_loop.simps) (auto split: sum.splits)
      from "1.IH"(2) [OF notend _ st refl refl refl rest] False
      have "length (clients s') \<le> length (clients s1)" by simp
      moreover from notend have "k < length (clients sink)" by simp
      from queue_client_step_length [OF st this] have "length (clients s1) \<le> length (clients sink)" .
      ultimately show ?thesis by simp
    qed
  qed
qed


lemma queue_clients_loop_no_removal:
  assumes "queue_clients_loop mb smb now s cookie k usage ns = Inr (s', u', n')"
    and "length (clients s') = length (clients s)"
    and "cookie = clients_cookie s"
    and "0 < smb \<longrightarrow> smb = get_buffers_max (unit_type s) (bufqueue s) (units_soft_max s)"
    and "bufqueue s \<noteq> []" and "int (length (bufqueue s)) < 2 ^ 31"
    and "- 1 \<le> usage"
    and "\<forall>j<k. j < length (clients s) \<longrightarrow>
           - 1 \<le> bufpos (clients s ! j) \<and> bufpos (clients s ! j) < int (length (bufqueue s)) \<and>
           bufpos (clients s ! j) \<le> usage"
    and "\<forall>j\<ge>k. j < length (clients s) \<longrightarrow>
           - 1 \<le> bufpos (clients s ! j) \<and> bufpos (clients s ! j) + 1 < int (length (bufqueue s))"
  shows "bufqueue s' = bufqueue s \<and> usage \<le> u' \<and>
         (\<forall>j<length (clients s').
            - 1 \<le> bufpos (clients s' ! j) \<and> bufpos (clients s' ! j) < int (length (bufqueue s)) \<and>
            bufpos (clients s' ! j) \<le> u')"
  using assms
proof (induction mb smb now s cookie k usage ns rule: queue_clients_loop.induct)
  case (1 mb smb now sink cookie k usage ns)
  show ?case
  proof (cases "length (clients sink) \<le> k")
    case True
    with "1.prems"(1) have "s' = sink" "u' = usage"
      by (subst (asm) queue_clients_loop.simps, simp)+
    with True "1.prems"(8) show ?thesis by simp
  next
    case notend: False
    then have kl: "k < length (clients sink)" by simp
    from notend "1.prems"(1,3) obtain s1 k1 u1 n1 where
      st: "queue_client_step mb smb now sink k usage ns = Inr (s1, k1, u1, n1)"
      and rest: "queue_clients_loop mb smb now s1 cookie k1 u1 n1 = Inr (s', u', n')"
      by (subst (asm) queue_clients_loop.simps) (auto split: sum.splits)
    from queue_clients_loop_length [OF rest] queue_client_step_length [OF st kl] "1.prems"(2)
    have len1: "length (clients s1) = length (clients sink)"
      and len': "length (clients s') = length (clients s1)" by simp_all
    from "1.prems"(9) kl have here: "- 1 \<le> bufpos (clients sink ! k)"
      "bufpos (clients sink ! k) + 1 < int (length (bufqueue sink))" by simp_all
    from queue_client_step_no_removal [OF st kl len1 "1.prems"(4,5,6) here "1.prems"(7)]
    obtain c2 fs where k1: "k1 = Suc k" and u1: "usage \<le> u1"
      and s1: "s1 = sink\<lparr>clients := (clients sink)[k := c2], fdset := fs\<rparr>"
      and c2: "- 1 \<le> bufpos c2" "bufpos c2 < int (length (bufqueue sink))" "bufpos c2 \<le> u1"
      by blast
    have p3: "cookie = clients_cookie s1" using s1 "1.prems"(3) by simp
    have p4: "0 < smb \<longrightarrow> smb = get_buffers_max (unit_type s1) (bufqueue s1) (units_soft_max s1)"
      using s1 "1.prems"(4) by simp
    have p5: "bufqueue s1 \<noteq> []" and p6: "int (length (bufqueue s1)) < 2 ^ 31"
      using s1 "1.prems"(5,6) by simp_all
    have p7: "- 1 \<le> u1" using u1 "1.prems"(7) by simp
    have p8: "\<forall>j<k1. j < length (clients s1) \<longrightarrow>
           - 1 \<le> bufpos (clients s1 ! j) \<and> bufpos (clients s1 ! j) < int (length (bufqueue s1)) \<and>
           bufpos (clients s1 ! j) \<le> u1"
    proof (intro allI impI)
      fix j assume j: "j < k1" "j < length (clients s1)"
      show "- 1 \<le> bufpos (clients s1 ! j) \<and> bufpos (clients s1 ! j) < int (length (bufqueue s1)) \<and>
           bufpos (clients s1 ! j) \<le> u1"
      proof (cases "j = k")
        case True
        with s1 kl c2 show ?thesis by simp
      next
        case False
        with j k1 have "j < k" by simp
        with "1.prems"(8) j(2) len1 have "- 1 \<le> bufpos (clients sink ! j) \<and>
           bufpos (clients sink ! j) < int (length (bufqueue sink)) \<and>
           bufpos (clients sink ! j) \<le> usage" by simp
        with False s1 u1 show ?thesis by simp
      qed
    qed
    have p9: "\<forall>j\<ge>k1. j < length (clients s1) \<longrightarrow>
           - 1 \<le> bufpos (clients s1 ! j) \<and> bufpos (clients s1 ! j) + 1 < int (length (bufqueue s1))"
    proof (intro allI impI)
      fix j assume j: "k1 \<le> j" "j < length (clients s1)"
      with k1 have "k \<le> j" "j \<noteq> k" by simp_all
      with "1.prems"(9) j(2) len1 s1 show
        "- 1 \<le> bufpos (clients s1 ! j) \<and> bufpos (clients s1 ! j) + 1 < int (length (bufqueue s1))"
        by simp
    qed
    from "1.IH"(2) [OF notend _ st refl refl refl rest len' p3 p4 p5 p6 p7 p8 p9] "1.prems"(3)
    have "bufqueue s' = bufqueue s1 \<and> u1 \<le> u' \<and>
         (\<forall>j<length (clients s').
            - 1 \<le> bufpos (clients s' ! j) \<and> bufpos (clients s' ! j) < int (length (bufqueue s1)) \<and>
            bufpos (clients s' ! j) \<le> u')"
      by simp
    with s1 u1 show ?thesis by simp
  qed
qed


lemma sync_extend_ge: "usage \<le> sync_extend q i limit usage"
  by (induction q arbitrary: i) auto

lemma sync_extend_ge_trans: "a \<le> usage \<Longrightarrow> a \<le> sync_extend q i limit usage"
  using sync_extend_ge [of usage q i limit] by simp

lemma trim_queue_length:
  assumes "i = int (length q) - 1" and "0 \<le> usage"
  shows "int (length (trim_queue q i usage)) = min (int (length q)) (usage + 1)"
  using assms
proof (induction q i usage rule: trim_queue.induct)
  case (1 q i usage)
  show ?case
  proof (cases "usage < i")
    case True
    let ?q' = "g_array_remove_index q i"
    from True "1.prems" have len: "int (length ?q') = int (length q) - 1"
      by (auto simp: g_array_remove_index_def)
    with "1.prems" have "i - 1 = int (length ?q') - 1" by simp
    from "1.IH" [OF True this "1.prems"(2)] len
    have "int (length (trim_queue ?q' (i - 1) usage)) = min (int (length q) - 1) (usage + 1)"
      by simp
    with True "1.prems" show ?thesis
      by (subst trim_queue.simps) simp
  next
    case False
    with "1.prems" show ?thesis by (subst trim_queue.simps) simp
  qed
qed

lemma queue_buffer_trim_result:
  assumes "queue_buffer_trim s2 queuelen smb usage0 = Inr s'"
  shows "\<exists>usage2. usage0 \<le> usage2 \<and>
           s' = s2\<lparr>bufqueue := trim_queue (bufqueue s2) (queuelen - 1) usage2,
                   buffers_queued := usage2\<rparr>"
proof -
  from assms obtain usage mx ok where
    fl: "find_limits (bufqueue s2) (bytes_min s2) (buffers_min s2) (time_min s2) (- 1) (- 1) (- 1)
           = Inr (usage, mx, ok)"
    by (auto simp: queue_buffer_trim_def split: sum.splits)
  let ?u1 = "max usage0 (usage + 1)"
  let ?u2 = "if def_sync_method s2 = GST_SYNC_METHOD_LATEST_KEYFRAME \<or>
                def_sync_method s2 = GST_SYNC_METHOD_BURST_KEYFRAME
             then sync_extend (bufqueue s2) 0
                    (if smb > 0 then min queuelen smb else queuelen) ?u1
             else ?u1"
  have "usage0 \<le> ?u2" by (simp add: sync_extend_ge_trans)
  moreover from assms fl have
    "s' = s2\<lparr>bufqueue := trim_queue (bufqueue s2) (queuelen - 1) ?u2, buffers_queued := ?u2\<rparr>"
    by (simp add: queue_buffer_trim_def Let_def)
  ultimately show ?thesis by blast
qed

lemma queue_buffer_keeps_bufpos:
  assumes "queue_buffer sink buf now = Inr sink'"
    and "length (clients sink') = length (clients sink)"
    and "int (length (bufqueue sink)) + 1 < 2 ^ 31"
    and "\<forall>c \<in> set (clients sink). bufpos_in_queue (bufqueue sink) c"
  shows "\<forall>c \<in> set (clients sink'). bufpos_in_queue (bufqueue sink') c"
proof -
  let ?s1 = "sink\<lparr>bufqueue := buf # bufqueue sink\<rparr>"
  let ?mb = "if units_max sink > 0
             then get_buffers_max (unit_type sink) (buf # bufqueue sink) (units_max sink) else - 1"
  let ?smb = "if units_soft_max sink > 0
              then get_buffers_max (unit_type sink) (buf # bufqueue sink) (units_soft_max sink)
              else - 1"
  let ?loop = "queue_clients_loop ?mb ?smb now ?s1 (clients_cookie sink) 0 0 False"
  obtain s2 usage0 ns where
    loop: "?loop = Inr (s2, usage0, ns)"
    and trim: "queue_buffer_trim s2 (int (length (buf # bufqueue sink))) ?smb usage0 = Inr sink'"
  proof (cases ?loop)
    case (Inl e)
    with assms(1) have False by (simp add: queue_buffer_def Let_def cong: if_cong)
    then show ?thesis ..
  next
    case (Inr res)
    obtain s2 usage0 ns where res: "res = (s2, usage0, ns)" by (cases res)
    with assms(1) Inr have
      "queue_buffer_trim s2 (int (length (buf # bufqueue sink))) ?smb usage0 = Inr sink'"
      by (simp add: queue_buffer_def Let_def cong: if_cong)
    with Inr res that show ?thesis by simp
  qed
  from queue_buffer_trim_result [OF trim] obtain usage2 where
    u2: "usage0 \<le> usage2"
    and s': "sink' = s2\<lparr>bufqueue := trim_queue (bufqueue s2) (int (length (bufqueue sink))) usage2,
                       buffers_queued := usage2\<rparr>"
    by auto
  from s' assms(2) have len2: "length (clients s2) = length (clients ?s1)" by simp
  have ck: "clients_cookie sink = clients_cookie ?s1" by simp
  have sm: "0 < ?smb \<longrightarrow>
      ?smb = get_buffers_max (unit_type ?s1) (bufqueue ?s1) (units_soft_max ?s1)"
    by simp
  have ne: "bufqueue ?s1 \<noteq> []" by simp
  have lt: "int (length (bufqueue ?s1)) < 2 ^ 31" using assms(3) by simp
  have z: "- 1 \<le> (0 :: int)" by simp
  have dn: "\<forall>j<0. j < length (clients ?s1) \<longrightarrow>
           - 1 \<le> bufpos (clients ?s1 ! j) \<and>
           bufpos (clients ?s1 ! j) < int (length (bufqueue ?s1)) \<and>
           bufpos (clients ?s1 ! j) \<le> 0"
    by simp
  have todo: "\<forall>j\<ge>0. j < length (clients ?s1) \<longrightarrow>
           - 1 \<le> bufpos (clients ?s1 ! j) \<and>
           bufpos (clients ?s1 ! j) + 1 < int (length (bufqueue ?s1))"
  proof (intro allI impI)
    fix j :: nat assume "j < length (clients ?s1)"
    then have "clients sink ! j \<in> set (clients sink)" by simp
    with assms(4) have "bufpos_in_queue (bufqueue sink) (clients sink ! j)" by blast
    then show "- 1 \<le> bufpos (clients ?s1 ! j) \<and>
           bufpos (clients ?s1 ! j) + 1 < int (length (bufqueue ?s1))"
      by (auto simp: bufpos_in_queue_def)
  qed
  from queue_clients_loop_no_removal [OF loop len2 ck sm ne lt z dn todo]
  have q2: "bufqueue s2 = buf # bufqueue sink" and u0: "0 \<le> usage0"
    and inv: "\<forall>j<length (clients s2).
            - 1 \<le> bufpos (clients s2 ! j) \<and>
            bufpos (clients s2 ! j) < int (length (bufqueue sink)) + 1 \<and>
            bufpos (clients s2 ! j) \<le> usage0"
    by auto
  from u0 u2 have "0 \<le> usage2" by simp
  from trim_queue_length [OF _ this, of "int (length (bufqueue sink))" "bufqueue s2"] q2 s'
  have tl: "int (length (bufqueue sink')) = min (int (length (bufqueue sink)) + 1) (usage2 + 1)"
    by simp
  show ?thesis
  proof
    fix c assume "c \<in> set (clients sink')"
    with s' obtain j where j: "j < length (clients s2)" "c = clients s2 ! j"
      by (auto simp: in_set_conv_nth)
    with inv have "- 1 \<le> bufpos c" "bufpos c < int (length (bufqueue sink)) + 1"
      "bufpos c \<le> usage0" by simp_all
    with u2 tl show "bufpos_in_queue (bufqueue sink') c"
      by (auto simp: bufpos_in_queue_def)
  qed
qed

lemma render_keeps_bufpos:
  assumes "render sink buf now = Inr (r, sink')"
    and "length (clients sink') = length (clients sink)"
    and "int (length (bufqueue sink)) + 1 < 2 ^ 31"
    and "\<forall>c \<in> set (clients sink). bufpos_in_queue (bufqueue sink) c"
  shows "\<forall>c \<in> set (clients sink'). bufpos_in_queue (bufqueue sink') c"
proof (cases "sink_open sink \<and> \<not> buf_header buf")
  case True
  let ?s2 = "sink\<lparr>previous_buffer_in_caps := False\<rparr>"
  from True assms(1) obtain s3 where
    q: "queue_buffer ?s2 buf now = Inr s3"
    and s': "sink' = s3\<lparr>bytes_to_serve := bytes_to_serve s3 + word_of_nat (buf_size buf)\<rparr>"
    by (auto simp: render_def Let_def split: sum.splits)
  from s' assms(2) have "length (clients s3) = length (clients ?s2)" by simp
  moreover from assms(3) have "int (length (bufqueue ?s2)) + 1 < 2 ^ 31" by simp
  moreover from assms(4) have "\<forall>c \<in> set (clients ?s2). bufpos_in_queue (bufqueue ?s2) c" by simp
  ultimately have "\<forall>c \<in> set (clients s3). bufpos_in_queue (bufqueue s3) c"
    using q by (intro queue_buffer_keeps_bufpos [of ?s2 buf now s3])
  with s' show ?thesis by simp
next
  case False
  with assms(1,4) show ?thesis
    by (auto simp: render_def Let_def split: if_splits)
qed

section \<open>The position of a client after \<open>render\<close>\<close>

text \<open>
  Claim C5 says that a client's \<open>bufpos\<close> is \<open>-1\<close> or an index of the queue whenever the
  clients lock is released. Here three clients satisfy this on a queue of one buffer; the
  one on descriptor 6 has been idle for longer than the timeout. \<open>render\<close> of a data
  buffer advances the first client to 1, removes the second as slow, finds the cookie
  outdated at the third and starts again at the head of the list: the first client is
  advanced a second time, to 2, and that is the length of the queue when \<open>render\<close>
  returns. The next write to that client indexes the queue out of its bounds.
\<close>

theorem render_restart_advances_twice:
  "map bufpos (clients three_client_sink) = [0, 0, - 1] \<and>
   length (bufqueue three_client_sink) = 1 \<and>
   map_sum id (\<lambda>(r, s). (map fd (clients s), map bufpos (clients s), length (bufqueue s)))
     (render three_client_sink (delta_buf 2 10) 100) = Inr ([5, 7], [2, 0], 2)"
  by (simp add: three_client_sink_def started_sink_def fresh_client_def render_def
        gst_multi_handle_sink_client_init_def queue_buffer_def queue_buffer_trim_def
        queue_client_step_def
        recover_position_def remove_client_link_def set_client_def find_limits_def Let_def
        delta_buf_def queue_clients_loop.simps trim_queue.simps
        gst_poll_fd_ctl_write_def gst_poll_remove_fd_def to_gint_def GST_CLOCK_TIME_NONE_def)

lemma write_beyond_the_queue:
  "handle_client_write (started_sink\<lparr>bufqueue := [delta_buf 2 10, delta_buf 1 10]\<rparr>)
     ((fresh_client 5)\<lparr>bufpos := 2, new_connection := False\<rparr>) 100 ws = Some (Inl OutOfBounds)"
  by (simp add: handle_client_write_def pick_buffer_def choose_start_def started_sink_def
        fresh_client_def gst_multi_handle_sink_client_init_def)


section \<open>\<open>render\<close>: header buffers\<close>

text \<open>
  Queueing a data buffer touches neither the stream-header set nor the flag that
  remembers whether the last buffer was a header, nor the flag of the started sink: the
  loop over the clients changes clients, the poll set, the cookie and the signals only,
  and the trimming changes the queue only.
\<close>

lemma queue_client_step_keeps_header_state:
  assumes "queue_client_step mb smb now s k usage ns = Inr (s1, k1, u1, n1)"
  shows "streamheader s1 = streamheader s \<and>
         previous_buffer_in_caps s1 = previous_buffer_in_caps s \<and>
         sink_open s1 = sink_open s"
  using assms
  by (auto simp: queue_client_step_def remove_client_link_def set_client_def Let_def
           split: if_splits sum.splits)

lemma queue_clients_loop_keeps_header_state:
  "queue_clients_loop mb smb now s cookie k usage ns = Inr (s', u', n') \<Longrightarrow>
   streamheader s' = streamheader s \<and>
   previous_buffer_in_caps s' = previous_buffer_in_caps s \<and>
   sink_open s' = sink_open s"
proof (induction mb smb now s cookie k usage ns rule: queue_clients_loop.induct)
  case (1 mb smb now sink cookie k usage ns)
  show ?case
  proof (cases "length (clients sink) \<le> k")
    case True
    with "1.prems" have "s' = sink" by (subst (asm) queue_clients_loop.simps) simp
    then show ?thesis by simp
  next
    case notend: False
    show ?thesis
    proof (cases "cookie \<noteq> clients_cookie sink")
      case True
      with notend "1.prems" have
        "queue_clients_loop mb smb now sink (clients_cookie sink) 0 usage ns = Inr (s', u', n')"
        by (subst (asm) queue_clients_loop.simps) simp
      with notend True "1.IH"(1) show ?thesis by simp
    next
      case False
      with notend "1.prems" obtain s1 k1 u1 n1 where
        st: "queue_client_step mb smb now sink k usage ns = Inr (s1, k1, u1, n1)"
        and rest: "queue_clients_loop mb smb now s1 cookie k1 u1 n1 = Inr (s', u', n')"
        by (subst (asm) queue_clients_loop.simps) (auto split: sum.splits)
      from "1.IH"(2) [OF notend _ st refl refl refl rest] False
      have "streamheader s' = streamheader s1 \<and>
            previous_buffer_in_caps s' = previous_buffer_in_caps s1 \<and>
            sink_open s' = sink_open s1" by simp
      with queue_client_step_keeps_header_state [OF st] show ?thesis by simp
    qed
  qed
qed

lemma queue_buffer_keeps_header_state:
  assumes "queue_buffer sink buf now = Inr sink'"
  shows "streamheader sink' = streamheader sink \<and>
         previous_buffer_in_caps sink' = previous_buffer_in_caps sink \<and>
         sink_open sink' = sink_open sink"
proof -
  let ?s1 = "sink\<lparr>bufqueue := buf # bufqueue sink\<rparr>"
  from assms obtain mb smb s2 usage0 ns where
    loop: "queue_clients_loop mb smb now ?s1 (clients_cookie ?s1) 0 0 False = Inr (s2, usage0, ns)"
    and trim: "queue_buffer_trim s2 (int (length (bufqueue ?s1))) smb usage0 = Inr sink'"
    by (auto simp: queue_buffer_def Let_def split: sum.splits)
  from queue_buffer_trim_result [OF trim] obtain usage2 where
    "sink' = s2\<lparr>bufqueue := trim_queue (bufqueue s2) (int (length (bufqueue ?s1)) - 1) usage2,
                 buffers_queued := usage2\<rparr>"
    by blast
  with queue_clients_loop_keeps_header_state [OF loop] show ?thesis by simp
qed

text \<open>A data buffer rendered on a started sink: the call returns \<open>GST_FLOW_OK\<close>, the
  stream-header set is as before and the sink remembers that the last buffer was not a
  header.\<close>

lemma render_data_buffer:
  assumes "render sink buf now = Inr (r, sink')" and "sink_open sink" and "\<not> buf_header buf"
  shows "r = GST_FLOW_OK \<and> streamheader sink' = streamheader sink \<and>
         \<not> previous_buffer_in_caps sink' \<and> sink_open sink'"
proof -
  let ?s2 = "sink\<lparr>previous_buffer_in_caps := False\<rparr>"
  from assms obtain s3 where
    qb: "queue_buffer ?s2 buf now = Inr s3"
    and res: "r = GST_FLOW_OK"
      "sink' = s3\<lparr>bytes_to_serve := bytes_to_serve s3 + word_of_nat (buf_size buf)\<rparr>"
    by (auto simp: render_def Let_def split: sum.splits)
  from queue_buffer_keeps_header_state [OF qb] res assms(2) show ?thesis by simp
qed

text \<open>A header buffer rendered on a started sink, in terms of the remembered flag. This
  covers the first buffer ever rendered as well.\<close>

lemma render_header_on_open_sink:
  assumes "sink_open sink" and "buf_header buf"
  shows "render sink buf now =
           Inr (GST_FLOW_OK,
                sink\<lparr> streamheader :=
                        (if previous_buffer_in_caps sink then streamheader sink else []) @ [buf],
                      previous_buffer_in_caps := True \<rparr>)"
  using assms by (simp add: render_def Let_def)

text \<open>On a sink that is not started the guard at the top of \<open>render\<close> returns
  \<open>GST_FLOW_FLUSHING\<close> and nothing is rendered.\<close>

lemma render_not_open:
  "\<not> sink_open sink \<Longrightarrow> render sink buf now = Inr (GST_FLOW_FLUSHING, sink)"
  by (simp add: render_def)

text \<open>So after every call that returned \<open>GST_FLOW_OK\<close> the sink is started and remembers
  whether the buffer of that call was a header.\<close>

lemma render_ok_state:
  assumes "render sink0 prev t0 = Inr (GST_FLOW_OK, sink)"
  shows "sink_open sink \<and> previous_buffer_in_caps sink = buf_header prev"
proof -
  have op: "sink_open sink0"
  proof (rule ccontr)
    assume "\<not> sink_open sink0"
    from render_not_open [OF this, of prev t0] assms show False by simp
  qed
  show ?thesis
  proof (cases "buf_header prev")
    case True
    from render_header_on_open_sink [OF op True, of t0] assms True op show ?thesis by auto
  next
    case False
    from render_data_buffer [OF assms op False] False show ?thesis by simp
  qed
qed

text \<open>What happens in between two calls of \<open>render\<close> (clients added, removed or served)
  does not matter, as long as it leaves the two flags of the sink alone.\<close>

lemma render_header_buffer_interleaved:
  assumes "render sink0 prev t0 = Inr (GST_FLOW_OK, sink1)" and "buf_header buf"
    and "sink_open sink = sink_open sink1"
    and "previous_buffer_in_caps sink = previous_buffer_in_caps sink1"
  shows "render sink buf now =
           Inr (GST_FLOW_OK,
                sink\<lparr> streamheader := (if buf_header prev then streamheader sink else []) @ [buf],
                      previous_buffer_in_caps := True \<rparr>)"
proof -
  from render_ok_state [OF assms(1)] assms(3,4) have "sink_open sink"
    and "previous_buffer_in_caps sink = buf_header prev" by simp_all
  with render_header_on_open_sink [OF this(1) assms(2), of now] show ?thesis by simp
qed

lemma add_full_keeps_header_state:
  "sink_open (add_full sink f sm min_unit min_value max_unit max_value now wronly is_sock) =
     sink_open sink \<and>
   previous_buffer_in_caps
     (add_full sink f sm min_unit min_value max_unit max_value now wronly is_sock) =
     previous_buffer_in_caps sink"
  by (simp add: add_full_def Let_def split: option.splits)

lemma remove_keeps_header_state:
  "sink_open (remove sink f) = sink_open sink \<and>
   previous_buffer_in_caps (remove sink f) = previous_buffer_in_caps sink"
  by (simp add: remove_def remove_client_link_def set_client_def Let_def split: option.splits)

lemma remove_flush_keeps_header_state:
  "sink_open (remove_flush sink f) = sink_open sink \<and>
   previous_buffer_in_caps (remove_flush sink f) = previous_buffer_in_caps sink"
  by (simp add: remove_flush_def set_client_def Let_def split: option.splits)

text \<open>
  Claim C9. Let \<open>prev\<close> be the buffer rendered before, that is, \<open>render\<close> has accepted it
  with \<open>GST_FLOW_OK\<close> and left the sink in state \<open>sink\<close>, and let \<open>buf\<close> carry the header
  flag. Then \<open>render\<close> of \<open>buf\<close> returns \<open>GST_FLOW_OK\<close>, and the sink after the call differs
  from \<open>sink\<close> in the stream-header set and the remembered flag only, so the global queue
  is as it was and \<open>buf\<close> is not in it by this call. When \<open>prev\<close> did not carry the header
  flag, the old stream-header set is dropped and the new set is \<open>buf\<close> alone; when it did,
  \<open>buf\<close> is appended to the set as it is.
\<close>

theorem render_header_buffer:
  assumes "render sink0 prev t0 = Inr (GST_FLOW_OK, sink)" and "buf_header buf"
  shows "render sink buf now =
           Inr (GST_FLOW_OK,
                sink\<lparr> streamheader := (if buf_header prev then streamheader sink else []) @ [buf],
                      previous_buffer_in_caps := True \<rparr>)"
proof -
  from render_ok_state [OF assms(1)] have "sink_open sink"
    and "previous_buffer_in_caps sink = buf_header prev" by simp_all
  with render_header_on_open_sink [OF this(1) assms(2), of now] show ?thesis by simp
qed

text \<open>A sink that holds the stream header 4 and has just seen it. A data buffer is
  rendered: it goes to the head of the queue and the header set stays. Then header 7 is
  rendered: the set is header 7 alone. Then header 8: the set is headers 7 and 8. The
  queue is the same after all three header buffers.\<close>

theorem render_header_buffer_witness:
  "render header_seen_sink (delta_buf 9 10) 1 = Inr (GST_FLOW_OK, data_seen_sink) \<and>
   \<not> buf_header (delta_buf 9 10) \<and> buf_header (header_buf 7 50) \<and> buf_header (header_buf 8 50) \<and>
   streamheader data_seen_sink = [header_buf 4 50] \<and>
   render data_seen_sink (header_buf 7 50) 2 =
     Inr (GST_FLOW_OK, data_seen_sink\<lparr>streamheader := [header_buf 7 50],
                                      previous_buffer_in_caps := True\<rparr>) \<and>
   render (data_seen_sink\<lparr>streamheader := [header_buf 7 50], previous_buffer_in_caps := True\<rparr>)
       (header_buf 8 50) 3 =
     Inr (GST_FLOW_OK, data_seen_sink\<lparr>streamheader := [header_buf 7 50, header_buf 8 50],
                                      previous_buffer_in_caps := True\<rparr>)"
proof -
  have a: "render header_seen_sink (delta_buf 9 10) 1 = Inr (GST_FLOW_OK, data_seen_sink)"
    by (simp add: header_seen_sink_def data_seen_sink_def header_sink_def started_sink_def
          render_def queue_buffer_def queue_buffer_trim_def find_limits_def Let_def
          delta_buf_def key_buf_def header_buf_def queue_clients_loop.simps trim_queue.simps
          g_array_remove_index_def to_gint_def GST_CLOCK_TIME_NONE_def)
  have b: "buf_header (header_buf n sz)" "\<not> buf_header (delta_buf n sz)" for n sz
    by (simp_all add: header_buf_def delta_buf_def)
  have c: "streamheader data_seen_sink = [header_buf 4 50]"
    by (simp add: data_seen_sink_def)
  from render_header_buffer [OF a b(1), of 7 50 2] b
  have d: "render data_seen_sink (header_buf 7 50) 2 =
     Inr (GST_FLOW_OK, data_seen_sink\<lparr>streamheader := [header_buf 7 50],
                                      previous_buffer_in_caps := True\<rparr>)"
    by simp
  from render_header_buffer [OF d b(1), of 8 50 3] b
  have e: "render (data_seen_sink\<lparr>streamheader := [header_buf 7 50], previous_buffer_in_caps := True\<rparr>)
       (header_buf 8 50) 3 =
     Inr (GST_FLOW_OK, data_seen_sink\<lparr>streamheader := [header_buf 7 50, header_buf 8 50],
                                      previous_buffer_in_caps := True\<rparr>)"
    by simp
  from a b c d e show ?thesis by simp
qed

end
